theory Spec2Isabelle
  imports Main
begin

section \<open>Time and configuration\<close>

text \<open>
  A \<open>datetime\<close> is the number of microseconds (the resolution of Python's datetime)
  since \<open>datetime.min\<close>, the first instant of year 1; \<open>datetime_max\<close> is the last
  microsecond of year 9999. \<open>isoformat()\<close> is an injective rendering and results
  carry the timestamp itself. Every reading of \<open>datetime.utcnow()\<close> made during one
  call of the engine is the single instant \<open>now\<close> that the call is given.
\<close>

type_synonym datetime = int

definition datetime_max :: datetime where
  "datetime_max = 3652059 * 86400000000 - 1"

definition timedelta_days :: "int \<Rightarrow> int" where
  "timedelta_days d = d * 86400000000"

definition timedelta_hours :: "int \<Rightarrow> int" where
  "timedelta_hours h = h * 3600000000"

text \<open>config.py, the two settings the engine's decisions read.\<close>

record Settings =
  OFFLINE_GRACE_PERIOD_HOURS :: int
  ALLOW_UNLICENSED_CORE_FEATURES :: bool

section \<open>Exceptions\<close>

text \<open>
  The exceptions of the engine, as far as its handlers and its callers tell them
  apart. \<open>httpx.HTTPError\<close> has two kinds: \<open>TransportError\<close> (connection failures and
  timeouts) and \<open>HTTPStatusError\<close>, which \<open>raise_for_status\<close> raises for an error
  status of the authority. \<open>DBError\<close> is what a flush raises when the database refuses
  a row; \<open>PendingRollbackError\<close> is what the session raises on a commit after such a
  flush. The messages of the exceptions that Python raises by itself are shortened.
\<close>

datatype exn =
    TransportError string
  | HTTPStatusError nat string
  | KeyError string
  | TypeError string
  | AttributeError string
  | OverflowError string
  | DBError string
  | PendingRollbackError
  | OtherException string

fun is_HTTPError :: "exn \<Rightarrow> bool" where
  "is_HTTPError (TransportError m) = True"
| "is_HTTPError (HTTPStatusError s m) = True"
| "is_HTTPError e = False"

fun str_exn :: "exn \<Rightarrow> string" where
  "str_exn (TransportError m) = m"
| "str_exn (HTTPStatusError s m) = m"
| "str_exn (KeyError k) = [CHR 0x27] @ k @ [CHR 0x27]"
| "str_exn (TypeError m) = m"
| "str_exn (AttributeError m) = m"
| "str_exn (OverflowError m) = m"
| "str_exn (DBError m) = m"
| "str_exn PendingRollbackError = ''This Session's transaction has been rolled back''"
| "str_exn (OtherException m) = m"

text \<open>
  \<open>datetime + timedelta\<close>: Python raises \<open>OverflowError\<close> when the sum leaves the range
  of \<open>datetime\<close> (and already when the \<open>timedelta\<close> itself cannot be built, which for
  an instant inside the range implies the former).
\<close>

definition add_timedelta :: "datetime \<Rightarrow> int \<Rightarrow> exn + datetime" where
  "add_timedelta t delta =
     (if 0 \<le> t + delta \<and> t + delta \<le> datetime_max then Inr (t + delta)
      else Inl (OverflowError ''date value out of range''))"

section \<open>What the authority sends\<close>

text \<open>
  Replies are JSON. An entry that the code reads as an object or a list is missing,
  present with a value on which the code's next operation raises (\<open>null\<close>, or a value
  of another type), or present with a value of that shape. An entry that the code
  stores or returns as it is can be missing, \<open>null\<close>, or a value; such a value has the
  type that the interface gives it (a string for \<open>licenseKey\<close> and \<open>signature\<close>, strings
  for the elements of \<open>enabledFeatures\<close>, an object for \<open>license\<close>).
\<close>

datatype 'a json_field = Absent | Malformed | Present 'a

datatype 'a nullable = Missing | Null | Value 'a

text \<open>
  \<open>isValid\<close> is read for its truth value and then written to a Boolean column:
  \<open>IsFalsy\<close> is a missing entry and every falsy value, \<open>IsTrue\<close> is \<open>true\<close> (or the
  number one, which the column takes for it), \<open>IsTruthy\<close> every other truthy value,
  which the column refuses.
\<close>

datatype truth_value = IsFalsy | IsTrue | IsTruthy

text \<open>
  The license object (\<open>data["data"]\<close> of an activation reply, stored whole in
  \<open>license_data\<close>). Entries the engine never inspects are carried in \<open>extra\<close>.
\<close>

record license_data =
  licenseKey :: "string nullable"
  signature :: "string nullable"
  enabledFeatures :: "string list json_field"
  extra :: "(string \<times> string) list"

record activation_body =
  a_success :: bool
  a_data :: "license_data json_field"
  a_error :: "string nullable json_field"

record validation_data =
  isValid :: truth_value
  v_license :: "license_data nullable"

record validation_body =
  v_success :: bool
  v_data :: "validation_data json_field"

text \<open>
  The outcome of \<open>client.post\<close>, \<open>raise_for_status\<close> and \<open>response.json()\<close>: an
  exception, or the decoded body. \<open>send_heartbeat\<close> does not call \<open>raise_for_status\<close>
  and does not read the body: its post raises or returns a reply with some status.
\<close>

datatype 'a response = Raised exn | Json 'a

datatype posted = PostRaised exn | PostReplied nat

section \<open>Tables and session (database.py)\<close>

record LocalLicenseCache =
  license_key :: string
  license_data_col :: license_data
  cached_at :: datetime
  valid_until :: datetime
  last_validated_at :: "datetime option"
  is_valid :: bool
  validation_error :: "string option"
  in_grace_period :: bool
  grace_period_started_at :: "datetime option"
  grace_period_expires_at :: "datetime option"
  license_signature :: string

record LocalLicenseValidationAttempt =
  attempt_license_key :: string
  result :: string
  error_message :: "string option"
  attempt_hardware_id :: string
  attempted_at :: datetime

record LocalFeatureFlag =
  feature_key :: string
  enabled :: bool
  licensed :: bool
  system_enabled :: bool
  synced_at :: datetime

record tables =
  local_license_cache :: "LocalLicenseCache list"
  local_license_validation_attempts :: "LocalLicenseValidationAttempt list"
  local_feature_flags :: "LocalFeatureFlag list"

text \<open>
  What the database (PostgreSQL in \<open>config.py\<close>) checks when rows are flushed: the
  unique keys and the lengths of the \<open>String(n)\<close> columns (a character of a string
  is one \<open>char\<close>). A lost connection and a string holding a NUL character are
  outside the model.
\<close>

definition db_accepts :: "tables \<Rightarrow> bool" where
  "db_accepts t =
     (distinct (map license_key (local_license_cache t))
      \<and> list_all (\<lambda>r. length (license_key r) \<le> 255) (local_license_cache t)
      \<and> distinct (map feature_key (local_feature_flags t))
      \<and> list_all (\<lambda>f. length (feature_key f) \<le> 100) (local_feature_flags t)
      \<and> list_all (\<lambda>a. length (attempt_license_key a) \<le> 255 \<and> length (result a) \<le> 20
                      \<and> length (attempt_hardware_id a) \<le> 255)
           (local_license_validation_attempts t))"

text \<open>
  The client with its SQLAlchemy session: \<open>pending\<close> is what the open transaction sees
  (rows in insertion order, \<open>first()\<close> taking the earliest), \<open>committed\<close> what
  \<open>commit()\<close> has made durable. \<open>refused\<close> says that the session holds a value that
  no row can take, \<open>NULL\<close> for a column that is not nullable or a non-boolean for a
  Boolean column; the row stands in \<open>pending\<close> with a placeholder for it until the
  flush fails. \<open>needs_rollback\<close> says that a flush has failed in this session.
  The column \<open>license_data\<close> is the field \<open>license_data_col\<close>, and the columns of the
  attempt table that share a name with the license table are prefixed with \<open>attempt\<close>.
\<close>

record LicenseClient =
  pending :: tables
  committed :: tables
  hardware_id :: string
  scheduler_running :: bool
  refused :: bool
  needs_rollback :: bool

text \<open>
  \<open>db.commit()\<close>. After a failed flush the session raises until it is rolled back,
  which the engine never does. A flush that the database refuses rolls the
  transaction back and raises.
\<close>

definition commit :: "LicenseClient \<Rightarrow> exn option \<times> LicenseClient" where
  "commit c =
     (if needs_rollback c then (Some PendingRollbackError, c)
      else if refused c \<or> \<not> db_accepts (pending c) then
        (Some (DBError ''flush refused''),
         c\<lparr>pending := committed c, refused := False, needs_rollback := True\<rparr>)
      else (None, c\<lparr>committed := pending c\<rparr>))"


definition clean :: "LicenseClient \<Rightarrow> bool" where
  "clean c = (pending c = committed c)"

definition ready :: "LicenseClient \<Rightarrow> bool" where
  "ready c = (\<not> needs_rollback c \<and> \<not> refused c \<and> db_accepts (pending c)
              \<and> length (hardware_id c) \<le> 255)"

definition fresh :: "LicenseClient \<Rightarrow> bool" where
  "fresh c = (clean c \<and> ready c)"

section \<open>The engine (license\_client.py)\<close>

text \<open>\<open>query(...).filter(p).first()\<close> and an attribute update of the row it returns.\<close>

fun update_first :: "('a \<Rightarrow> bool) \<Rightarrow> ('a \<Rightarrow> 'a) \<Rightarrow> 'a list \<Rightarrow> 'a list" where
  "update_first p f [] = []"
| "update_first p f (x # xs) = (if p x then f x # xs else x # update_first p f xs)"

definition get_cached_license :: "LicenseClient \<Rightarrow> LocalLicenseCache option" where
  "get_cached_license c =
     (case local_license_cache (pending c) of [] \<Rightarrow> None | r # _ \<Rightarrow> Some r)"

definition log_validation_attempt ::
  "datetime \<Rightarrow> string \<Rightarrow> string \<Rightarrow> string option \<Rightarrow> LicenseClient
     \<Rightarrow> exn option \<times> LicenseClient" where
  "log_validation_attempt now key res err c =
     (let log_entry = \<lparr>attempt_license_key = key, result = res, error_message = err,
                        attempt_hardware_id = hardware_id c, attempted_at = now\<rparr>
      in commit (c\<lparr>pending := (pending c)\<lparr>local_license_validation_attempts :=
                     local_license_validation_attempts (pending c) @ [log_entry]\<rparr>\<rparr>))"

text \<open>
  \<open>_store_license_cache\<close>. A \<open>null\<close> key matches no row (the filter becomes
  \<open>IS NULL\<close> on a column without nulls).
\<close>

definition store_license_cache ::
  "datetime \<Rightarrow> license_data \<Rightarrow> LicenseClient \<Rightarrow> exn option \<times> LicenseClient" where
  "store_license_cache now d c =
     (case licenseKey d of
        Missing \<Rightarrow> (Some (KeyError ''licenseKey''), c)
      | key \<Rightarrow>
          (let rows = local_license_cache (pending c);
               k = (case key of Value k \<Rightarrow> k | _ \<Rightarrow> []);
               existing = (case key of Value k \<Rightarrow> find (\<lambda>r. license_key r = k) rows
                           | _ \<Rightarrow> None)
           in case add_timedelta now (timedelta_days 30) of
                Inl e \<Rightarrow> (Some e, c)
              | Inr until \<Rightarrow>
                  (let sig = (case signature d of Value s \<Rightarrow> s | _ \<Rightarrow> []);
                       rows' =
                         (case existing of
                            Some _ \<Rightarrow>
                              update_first (\<lambda>r. license_key r = k)
                                (\<lambda>r. r\<lparr>license_data_col := d, cached_at := now,
                                        valid_until := until, is_valid := True,
                                        license_signature := sig\<rparr>) rows
                          | None \<Rightarrow>
                              rows @ [\<lparr>license_key = k, license_data_col = d, cached_at = now,
                                       valid_until = until, last_validated_at = None,
                                       is_valid = True, validation_error = None,
                                       in_grace_period = False,
                                       grace_period_started_at = None,
                                       grace_period_expires_at = None,
                                       license_signature = sig\<rparr>])
                   in commit (c\<lparr>pending := (pending c)\<lparr>local_license_cache := rows'\<rparr>,
                                refused := (refused c \<or> key = Null \<or> signature d = Null)\<rparr>))))"

definition update_license_cache ::
  "datetime \<Rightarrow> validation_data \<Rightarrow> LicenseClient \<Rightarrow> exn option \<times> LicenseClient" where
  "update_license_cache now vd c =
     (case local_license_cache (pending c) of
        [] \<Rightarrow> (None, c)
      | r # rs \<Rightarrow>
          commit (c\<lparr>pending := (pending c)\<lparr>local_license_cache :=
                     r\<lparr>last_validated_at := Some now,
                       is_valid := (isValid vd = IsTrue),
                       in_grace_period := False\<rparr> # rs\<rparr>,
                    refused := (refused c \<or> isValid vd = IsTruthy)\<rparr>))"

text \<open>
  The loop of \<open>_sync_feature_flags\<close>. The session is created with \<open>autoflush=False\<close>, so
  a flag added in an earlier iteration is not seen by the query of a later one: the
  lookups go to the table, and the added flags are inserted by the commit.
\<close>

fun sync_loop ::
  "datetime \<Rightarrow> string list \<Rightarrow> LocalFeatureFlag list \<Rightarrow> LocalFeatureFlag list
     \<Rightarrow> LocalFeatureFlag list \<times> LocalFeatureFlag list" where
  "sync_loop now [] flags added = (flags, added)"
| "sync_loop now (k # ks) flags added =
     (case find (\<lambda>f. feature_key f = k) flags of
        Some feature \<Rightarrow>
          sync_loop now ks
            (update_first (\<lambda>f. feature_key f = k)
               (\<lambda>f. f\<lparr>licensed := True, synced_at := now\<rparr>) flags) added
      | None \<Rightarrow>
          sync_loop now ks flags
            (added @ [\<lparr>feature_key = k, enabled = True, licensed = True,
                       system_enabled = True, synced_at = now\<rparr>]))"

definition sync_feature_flags ::
  "datetime \<Rightarrow> license_data \<Rightarrow> LicenseClient \<Rightarrow> exn option \<times> LicenseClient" where
  "sync_feature_flags now d c =
     (let c1 = c\<lparr>pending := (pending c)\<lparr>local_feature_flags :=
                   map (\<lambda>f. f\<lparr>licensed := False\<rparr>) (local_feature_flags (pending c))\<rparr>\<rparr>;
          loop = (\<lambda>enabled_features.
                    (let (flags, added) =
                           sync_loop now enabled_features (local_feature_flags (pending c1)) []
                     in commit (c1\<lparr>pending := (pending c1)\<lparr>local_feature_flags :=
                                     flags @ added\<rparr>\<rparr>)))
      in case enabledFeatures d of
           Absent \<Rightarrow> loop []
         | Present enabled_features \<Rightarrow> loop enabled_features
         | Malformed \<Rightarrow> (Some (TypeError ''object is not iterable''), c1))"

definition start_heartbeat :: "LicenseClient \<Rightarrow> LicenseClient" where
  "start_heartbeat c = (if \<not> scheduler_running c then c\<lparr>scheduler_running := True\<rparr> else c)"

text \<open>
  The dictionary that \<open>activate_license\<close> returns: the license with the message, or
  the error text (\<open>None\<close> when the authority's \<open>message\<close> is \<open>null\<close>).
\<close>

datatype activation_result =
    Activated license_data string
  | NotActivated "string option"

text \<open>
  The two \<open>except\<close> clauses of \<open>activate_license\<close>. An exception of the log entry raised
  inside a handler leaves \<open>activate_license\<close>.
\<close>

definition activation_except ::
  "datetime \<Rightarrow> string \<Rightarrow> exn \<Rightarrow> LicenseClient
     \<Rightarrow> (exn + activation_result) \<times> LicenseClient" where
  "activation_except now key e c =
     (let error_msg = (if is_HTTPError e then ''HTTP error during activation: '' @ str_exn e
                       else ''Activation failed: '' @ str_exn e)
      in case log_validation_attempt now key ''failed'' (Some error_msg) c of
           (Some e', c') \<Rightarrow> (Inl e', c')
         | (None, c') \<Rightarrow> (Inr (NotActivated (Some error_msg)), c'))"

definition activate_license ::
  "datetime \<Rightarrow> string \<Rightarrow> activation_body response \<Rightarrow> LicenseClient
     \<Rightarrow> (exn + activation_result) \<times> LicenseClient" where
  "activate_license now key resp c =
     (case resp of
        Raised e \<Rightarrow> activation_except now key e c
      | Json data \<Rightarrow>
          if a_success data then
            (case a_data data of
               Absent \<Rightarrow> activation_except now key (KeyError ''data'') c
             | Malformed \<Rightarrow> activation_except now key (TypeError ''object is not subscriptable'') c
             | Present d \<Rightarrow>
                 (case store_license_cache now d c of
                    (Some e, c1) \<Rightarrow> activation_except now key e c1
                  | (None, c1) \<Rightarrow>
                      (case sync_feature_flags now d c1 of
                         (Some e, c2) \<Rightarrow> activation_except now key e c2
                       | (None, c2) \<Rightarrow>
                           (case log_validation_attempt now key ''success'' None
                                   (start_heartbeat c2) of
                              (Some e, c3) \<Rightarrow> activation_except now key e c3
                            | (None, c3) \<Rightarrow>
                                (Inr (Activated d ''License activated successfully''), c3)))))
          else
            (case a_error data of
               Absent \<Rightarrow> (Inr (NotActivated (Some ''Activation failed'')), c)
             | Present Missing \<Rightarrow> (Inr (NotActivated (Some ''Activation failed'')), c)
             | Present Null \<Rightarrow> (Inr (NotActivated None), c)
             | Present (Value m) \<Rightarrow> (Inr (NotActivated (Some m)), c)
             | Malformed \<Rightarrow>
                 activation_except now key (AttributeError ''object has no attribute get'') c))"

text \<open>
  The dictionary that \<open>validate_license\<close> returns; \<open>None\<close> and \<open>Missing\<close> are keys left
  out.
\<close>

record validation_result =
  valid :: bool
  license :: "license_data nullable"
  inGracePeriod :: "bool option"
  validUntil :: "datetime option"
  gracePeriodExpires :: "datetime option"
  reason :: "string option"
  message :: "string option"

definition no_result :: validation_result where
  "no_result = \<lparr>valid = False, license = Missing, inGracePeriod = None, validUntil = None,
                 gracePeriodExpires = None, reason = None, message = None\<rparr>"

text \<open>
  \<open>_check_grace_period\<close>. Its argument is the ORM object that \<open>_get_cached_license\<close>
  returned, that is the first row of the table as the session holds it now
  (\<open>validate_license\<close> calls it only when there is one). \<open>valid_until\<close> is not
  nullable, so the test \<open>valid_until and valid_until > now\<close> is the comparison. The
  expiry is computed before the record is touched.
\<close>

definition check_grace_period ::
  "Settings \<Rightarrow> datetime \<Rightarrow> LicenseClient \<Rightarrow> (exn + validation_result) \<times> LicenseClient" where
  "check_grace_period cfg now c =
     (case local_license_cache (pending c) of
        [] \<Rightarrow> (Inr no_result, c)
      | cached_license # rs \<Rightarrow>
          if valid_until cached_license > now then
            (Inr (no_result\<lparr>valid := True, inGracePeriod := Some True,
                             validUntil := Some (valid_until cached_license),
                             license := Value (license_data_col cached_license)\<rparr>), c)
          else if \<not> in_grace_period cached_license then
            (case add_timedelta now (timedelta_hours (OFFLINE_GRACE_PERIOD_HOURS cfg)) of
               Inl e \<Rightarrow> (Inl e, c)
             | Inr grace_period_expires \<Rightarrow>
                 (case commit (c\<lparr>pending := (pending c)\<lparr>local_license_cache :=
                          cached_license\<lparr>in_grace_period := True,
                                          grace_period_started_at := Some now,
                                          grace_period_expires_at := Some grace_period_expires\<rparr>
                          # rs\<rparr>\<rparr>) of
                    (Some e, c') \<Rightarrow> (Inl e, c')
                  | (None, c') \<Rightarrow>
                      (Inr (no_result\<lparr>valid := True, inGracePeriod := Some True,
                                       gracePeriodExpires := Some grace_period_expires,
                                       license := Value (license_data_col cached_license)\<rparr>),
                       c')))
          else
            (case grace_period_expires_at cached_license of
               Some expires \<Rightarrow>
                 if expires > now then
                   (Inr (no_result\<lparr>valid := True, inGracePeriod := Some True,
                                    gracePeriodExpires := Some expires,
                                    license := Value (license_data_col cached_license)\<rparr>), c)
                 else
                   (Inr (no_result\<lparr>valid := False, reason := Some ''grace_period_expired'',
                           message :=
                             Some ''License validation failed and grace period has expired''\<rparr>),
                    c)
             | None \<Rightarrow>
                 (Inr (no_result\<lparr>valid := False, reason := Some ''grace_period_expired'',
                         message :=
                           Some ''License validation failed and grace period has expired''\<rparr>),
                  c)))"

text \<open>
  The two \<open>except\<close> clauses of \<open>validate_license\<close>: every \<open>httpx.HTTPError\<close> is logged
  as \<open>offline\<close>, every other exception as \<open>failed\<close>. What the log entry or the grace
  check raises inside a handler leaves \<open>validate_license\<close>.
\<close>

definition validation_except ::
  "Settings \<Rightarrow> datetime \<Rightarrow> string \<Rightarrow> exn \<Rightarrow> LicenseClient
     \<Rightarrow> (exn + validation_result) \<times> LicenseClient" where
  "validation_except cfg now key e c =
     (case log_validation_attempt now key (if is_HTTPError e then ''offline'' else ''failed'')
             (Some (str_exn e)) c of
        (Some e', c') \<Rightarrow> (Inl e', c')
      | (None, c') \<Rightarrow> check_grace_period cfg now c')"

text \<open>
  The grace check called inside the \<open>try\<close> block: what it raises goes to the handlers.
\<close>

definition grace_in_try ::
  "Settings \<Rightarrow> datetime \<Rightarrow> string \<Rightarrow> LicenseClient
     \<Rightarrow> (exn + validation_result) \<times> LicenseClient" where
  "grace_in_try cfg now key c =
     (case check_grace_period cfg now c of
        (Inl e, c') \<Rightarrow> validation_except cfg now key e c'
      | (Inr v, c') \<Rightarrow> (Inr v, c'))"

definition validate_license ::
  "Settings \<Rightarrow> datetime \<Rightarrow> validation_body response \<Rightarrow> LicenseClient
     \<Rightarrow> (exn + validation_result) \<times> LicenseClient" where
  "validate_license cfg now resp c =
     (case get_cached_license c of
        None \<Rightarrow> (Inr (no_result\<lparr>valid := False, reason := Some ''no_license''\<rparr>), c)
      | Some cached_license \<Rightarrow>
          (case resp of
             Raised e \<Rightarrow> validation_except cfg now (license_key cached_license) e c
           | Json data \<Rightarrow>
               if v_success data then
                 (case v_data data of
                    Absent \<Rightarrow>
                      validation_except cfg now (license_key cached_license) (KeyError ''data'') c
                  | Malformed \<Rightarrow>
                      validation_except cfg now (license_key cached_license)
                        (AttributeError ''object has no attribute get'') c
                  | Present vd \<Rightarrow>
                      if isValid vd \<noteq> IsFalsy then
                        (case update_license_cache now vd c of
                           (Some e, c1) \<Rightarrow>
                             validation_except cfg now (license_key cached_license) e c1
                         | (None, c1) \<Rightarrow>
                             (case log_validation_attempt now (license_key cached_license)
                                     ''success'' None c1 of
                                (Some e, c2) \<Rightarrow>
                                  validation_except cfg now (license_key cached_license) e c2
                              | (None, c2) \<Rightarrow>
                                  (case v_license vd of
                                     Missing \<Rightarrow>
                                       validation_except cfg now (license_key cached_license)
                                         (KeyError ''license'') c2
                                   | l \<Rightarrow>
                                       (Inr (no_result\<lparr>valid := True, license := l,
                                                        inGracePeriod := Some False\<rparr>), c2))))
                      else grace_in_try cfg now (license_key cached_license) c)
               else grace_in_try cfg now (license_key cached_license) c))"

text \<open>
  \<open>send_heartbeat\<close>. The collection of the usage metrics and of the system information
  raises or not; the reply of the authority is not inspected, whatever its status.
  The \<open>except\<close> clause prints and returns.
\<close>

definition heartbeat_try ::
  "datetime \<Rightarrow> exn option \<Rightarrow> posted \<Rightarrow> LicenseClient \<Rightarrow> exn option \<times> LicenseClient" where
  "heartbeat_try now collect post c =
     (case collect of
        Some e \<Rightarrow> (Some e, c)
      | None \<Rightarrow>
          (case post of
             PostRaised e \<Rightarrow> (Some e, c)
           | PostReplied status \<Rightarrow>
               (case local_license_cache (pending c) of
                  [] \<Rightarrow> (None, c)
                | cached_license # rs \<Rightarrow>
                    commit (c\<lparr>pending := (pending c)\<lparr>local_license_cache :=
                              cached_license\<lparr>last_validated_at := Some now\<rparr> # rs\<rparr>\<rparr>))))"

definition send_heartbeat ::
  "datetime \<Rightarrow> exn option \<Rightarrow> posted \<Rightarrow> LicenseClient \<Rightarrow> exn option \<times> LicenseClient" where
  "send_heartbeat now collect post c =
     (case get_cached_license c of
        None \<Rightarrow> (None, c)
      | Some cached_license \<Rightarrow>
          (case heartbeat_try now collect post c of
             (Some e, c') \<Rightarrow> (None, c')
           | (None, c') \<Rightarrow> (None, c')))"

definition is_core_feature :: "string \<Rightarrow> bool" where
  "is_core_feature feature_key' =
     (feature_key' \<in> set [''module.camera_management'', ''module.live_view'',
                           ''module.recording_basic'', ''module.playback'',
                           ''module.user_management''])"

definition is_feature_available :: "Settings \<Rightarrow> LicenseClient \<Rightarrow> string \<Rightarrow> bool" where
  "is_feature_available cfg c k =
     (case find (\<lambda>f. feature_key f = k) (local_feature_flags (pending c)) of
        None \<Rightarrow> (if ALLOW_UNLICENSED_CORE_FEATURES cfg \<and> is_core_feature k then True else False)
      | Some feature \<Rightarrow> licensed feature \<and> system_enabled feature)"

section \<open>Runs of the engine and concrete installations\<close>

text \<open>
  The authority reports the license valid: the reply on which \<open>validate_license\<close>
  enters its success branch. Every other reply (an exception, \<open>success\<close> false, no
  \<open>data\<close>, \<open>isValid\<close> falsy) is a failing validation.
\<close>

fun reports_valid :: "validation_body response \<Rightarrow> bool" where
  "reports_valid (Raised e) = False"
| "reports_valid (Json data) =
     (v_success data \<and>
      (case v_data data of Present vd \<Rightarrow> isValid vd \<noteq> IsFalsy | _ \<Rightarrow> False))"



fun enabled_list :: "license_data \<Rightarrow> string list" where
  "enabled_list d = (case enabledFeatures d of Present ks \<Rightarrow> ks | _ \<Rightarrow> [])"


text \<open>
  The license object of a success reply can be stored: key and signature are not
  \<open>null\<close>, the key fits its column, and the listed features can be flushed.
\<close>

fun storable :: "activation_body response \<Rightarrow> bool" where
  "storable (Raised e) = True"
| "storable (Json data) =
     (if a_success data then
        (case a_data data of
           Present d \<Rightarrow>
             licenseKey d \<noteq> Null \<and> signature d \<noteq> Null
             \<and> (case licenseKey d of Value k \<Rightarrow> length k \<le> 255 | _ \<Rightarrow> True)
             \<and> distinct (enabled_list d)
             \<and> list_all (\<lambda>k. length k \<le> 100) (enabled_list d)
         | _ \<Rightarrow> True)
      else True)"

text \<open>What a call returned, if it returned.\<close>

fun returned :: "exn + 'a \<Rightarrow> 'a option" where
  "returned (Inr v) = Some v"
| "returned (Inl e) = None"

text \<open>The operations that write to the store.\<close>

datatype operation =
    Activate string "activation_body response"
  | Validate "validation_body response"
  | SendHeartbeat "exn option" posted

fun perform :: "Settings \<Rightarrow> datetime \<Rightarrow> operation \<Rightarrow> LicenseClient \<Rightarrow> LicenseClient" where
  "perform cfg now (Activate key resp) c = snd (activate_license now key resp c)"
| "perform cfg now (Validate resp) c = snd (validate_license cfg now resp c)"
| "perform cfg now (SendHeartbeat collect post) c = snd (send_heartbeat now collect post c)"

text \<open>Installations and replies for the concrete cases below.\<close>

definition default_settings :: Settings where
  "default_settings = \<lparr>OFFLINE_GRACE_PERIOD_HOURS = 72, ALLOW_UNLICENSED_CORE_FEATURES = True\<rparr>"

definition empty_tables :: tables where
  "empty_tables = \<lparr>local_license_cache = [], local_license_validation_attempts = [],
                    local_feature_flags = []\<rparr>"

definition fresh_client :: LicenseClient where
  "fresh_client = \<lparr>pending = empty_tables, committed = empty_tables,
                    hardware_id = ''hw-1'', scheduler_running = False,
                    refused = False, needs_rollback = False\<rparr>"

definition license_for :: "string \<Rightarrow> string list json_field \<Rightarrow> license_data" where
  "license_for k feats = \<lparr>licenseKey = Value k, signature = Value ''sig'',
                           enabledFeatures = feats, extra = []\<rparr>"

definition accepted :: "string \<Rightarrow> string list json_field \<Rightarrow> activation_body response" where
  "accepted k feats = Json \<lparr>a_success = True, a_data = Present (license_for k feats),
                            a_error = Absent\<rparr>"

definition rejected :: "activation_body response" where
  "rejected = Json \<lparr>a_success = False, a_data = Absent,
                     a_error = Present (Value ''Invalid license key'')\<rparr>"

definition cached_row ::
  "datetime \<Rightarrow> bool \<Rightarrow> datetime option \<Rightarrow> datetime option \<Rightarrow> LocalLicenseCache" where
  "cached_row until grace started expires =
     \<lparr>license_key = ''K'', license_data_col = license_for ''K'' (Present []), cached_at = 0,
      valid_until = until, last_validated_at = None, is_valid = True,
      validation_error = None, in_grace_period = grace, grace_period_started_at = started,
      grace_period_expires_at = expires, license_signature = ''sig''\<rparr>"

definition client_with :: "LocalLicenseCache list \<Rightarrow> LocalFeatureFlag list \<Rightarrow> LicenseClient" where
  "client_with rows flags =
     \<lparr>pending = \<lparr>local_license_cache = rows, local_license_validation_attempts = [],
                  local_feature_flags = flags\<rparr>,
      committed = \<lparr>local_license_cache = rows, local_license_validation_attempts = [],
                    local_feature_flags = flags\<rparr>,
      hardware_id = ''hw-1'', scheduler_running = False,
      refused = False, needs_rollback = False\<rparr>"

definition flag_row :: "string \<Rightarrow> bool \<Rightarrow> bool \<Rightarrow> LocalFeatureFlag" where
  "flag_row k lic sys = \<lparr>feature_key = k, enabled = True, licensed = lic,
                          system_enabled = sys, synced_at = 0\<rparr>"

definition valid_reply :: "validation_body response" where
  "valid_reply = Json \<lparr>v_success = True,
     v_data = Present \<lparr>isValid = IsTrue,
                       v_license = Value (license_for ''K'' (Present []))\<rparr>\<rparr>"

definition invalid_reply :: "validation_body response" where
  "invalid_reply = Json \<lparr>v_success = True,
     v_data = Present \<lparr>isValid = IsFalsy, v_license = Missing\<rparr>\<rparr>"

text \<open>
  The attempt log as committed, the entry that \<open>_log_validation_attempt\<close> writes, and
  the replies by their effect on the log: an activation the authority answers with
  \<open>success\<close> false, a validation the authority answers without an exception and
  without reporting the license valid, a validation met by an error status, a
  validation reported valid whose reply carries no \<open>license\<close> entry, and one whose
  \<open>isValid\<close> the Boolean column refuses.
\<close>

definition attempt_row ::
  "LicenseClient \<Rightarrow> datetime \<Rightarrow> string \<Rightarrow> string \<Rightarrow> string option
     \<Rightarrow> LocalLicenseValidationAttempt" where
  "attempt_row c now key res err =
     \<lparr>attempt_license_key = key, result = res, error_message = err,
      attempt_hardware_id = hardware_id c, attempted_at = now\<rparr>"

definition attempts :: "LicenseClient \<Rightarrow> LocalLicenseValidationAttempt list" where
  "attempts c = local_license_validation_attempts (committed c)"

fun activated :: "exn + activation_result \<Rightarrow> bool" where
  "activated (Inr (Activated d msg)) = True"
| "activated (Inr (NotActivated m)) = False"
| "activated (Inl e) = False"

fun activation_rejected :: "activation_body response \<Rightarrow> bool" where
  "activation_rejected (Raised e) = False"
| "activation_rejected (Json data) = (\<not> a_success data \<and> a_error data \<noteq> Malformed)"

fun validation_rejected :: "validation_body response \<Rightarrow> bool" where
  "validation_rejected (Raised e) = False"
| "validation_rejected (Json data) =
     (if v_success data
      then (case v_data data of Present vd \<Rightarrow> isValid vd = IsFalsy | _ \<Rightarrow> False)
      else True)"

fun status_error :: "validation_body response \<Rightarrow> bool" where
  "status_error (Raised (HTTPStatusError s m)) = True"
| "status_error resp = False"

fun valid_without_license :: "validation_body response \<Rightarrow> bool" where
  "valid_without_license (Raised e) = False"
| "valid_without_license (Json data) =
     (v_success data \<and>
      (case v_data data of
         Present vd \<Rightarrow> isValid vd \<noteq> IsFalsy \<and> v_license vd = Missing
       | _ \<Rightarrow> False))"

fun validity_refused :: "validation_body response \<Rightarrow> bool" where
  "validity_refused (Raised e) = False"
| "validity_refused (Json data) =
     (v_success data \<and>
      (case v_data data of Present vd \<Rightarrow> isValid vd = IsTruthy | _ \<Rightarrow> False))"

text \<open>
  The result that the specification gives an attempt: \<open>offline\<close> for a transport error,
  \<open>success\<close> for a license reported valid, \<open>failed\<close> for every other outcome.
\<close>

fun spec_attempt_result :: "validation_body response \<Rightarrow> string" where
  "spec_attempt_result (Raised (TransportError m)) = ''offline''"
| "spec_attempt_result (Raised e) = ''failed''"
| "spec_attempt_result (Json data) = (if reports_valid (Json data) then ''success'' else ''failed'')"

text \<open>
  A record carries grace timestamps; a record is kept by an operation when it is still
  the record of the same key and still carries them if it did; a table is kept when all
  its records are, at their positions.
\<close>

definition grace_stamped :: "LocalLicenseCache \<Rightarrow> bool" where
  "grace_stamped r =
     (grace_period_started_at r \<noteq> None \<and> grace_period_expires_at r \<noteq> None)"

definition kept :: "LocalLicenseCache \<Rightarrow> LocalLicenseCache \<Rightarrow> bool" where
  "kept r r' = (license_key r' = license_key r \<and> (grace_stamped r \<longrightarrow> grace_stamped r'))"

definition rows_kept :: "LocalLicenseCache list \<Rightarrow> LocalLicenseCache list \<Rightarrow> bool" where
  "rows_kept rows rows' =
     (length rows \<le> length rows' \<and> list_all2 kept rows (take (length rows) rows'))"

definition both_kept :: "LocalLicenseCache list \<Rightarrow> LicenseClient \<Rightarrow> bool" where
  "both_kept rows c =
     (rows_kept rows (local_license_cache (pending c))
      \<and> rows_kept rows (local_license_cache (committed c)))"

section \<open>Properties\<close>

subsection \<open>The session\<close>

lemma commit_ready:
  assumes "ready c"
  shows "commit c = (None, c\<lparr>committed := pending c\<rparr>)"
  using assms by (simp add: commit_def ready_def)

lemma commit_fields [simp]:
  "hardware_id (snd (commit c)) = hardware_id c"
  "scheduler_running (snd (commit c)) = scheduler_running c"
  by (simp_all add: commit_def)

lemma ready_committed [simp]:
  "ready c \<Longrightarrow> ready (c\<lparr>committed := t\<rparr>)"
  by (simp add: ready_def)

lemma log_ready:
  assumes "ready c" "length key \<le> 255" "length res \<le> 20"
  shows "fst (log_validation_attempt now key res err c) = None"
    and "local_license_cache (pending (snd (log_validation_attempt now key res err c))) =
           local_license_cache (pending c)"
    and "local_feature_flags (pending (snd (log_validation_attempt now key res err c))) =
           local_feature_flags (pending c)"
    and "local_license_validation_attempts
           (pending (snd (log_validation_attempt now key res err c))) =
         local_license_validation_attempts (pending c) @
           [\<lparr>attempt_license_key = key, result = res, error_message = err,
             attempt_hardware_id = hardware_id c, attempted_at = now\<rparr>]"
    and "committed (snd (log_validation_attempt now key res err c)) =
           pending (snd (log_validation_attempt now key res err c))"
    and "ready (snd (log_validation_attempt now key res err c))"
    and "hardware_id (snd (log_validation_attempt now key res err c)) = hardware_id c"
proof -
  let ?c = "c\<lparr>pending := (pending c)\<lparr>local_license_validation_attempts :=
              local_license_validation_attempts (pending c) @
                [\<lparr>attempt_license_key = key, result = res, error_message = err,
                  attempt_hardware_id = hardware_id c, attempted_at = now\<rparr>]\<rparr>\<rparr>"
  have r: "ready ?c" using assms by (simp add: ready_def db_accepts_def)
  have l: "log_validation_attempt now key res err c = (None, ?c\<lparr>committed := pending ?c\<rparr>)"
    unfolding log_validation_attempt_def Let_def by (rule commit_ready [OF r])
  show "fst (log_validation_attempt now key res err c) = None" by (simp add: l)
  show "local_license_cache (pending (snd (log_validation_attempt now key res err c))) =
           local_license_cache (pending c)" by (simp add: l)
  show "local_feature_flags (pending (snd (log_validation_attempt now key res err c))) =
           local_feature_flags (pending c)" by (simp add: l)
  show "local_license_validation_attempts
           (pending (snd (log_validation_attempt now key res err c))) =
         local_license_validation_attempts (pending c) @
           [\<lparr>attempt_license_key = key, result = res, error_message = err,
             attempt_hardware_id = hardware_id c, attempted_at = now\<rparr>]" by (simp add: l)
  show "committed (snd (log_validation_attempt now key res err c)) =
           pending (snd (log_validation_attempt now key res err c))" by (simp add: l)
  show "ready (snd (log_validation_attempt now key res err c))"
    using r by (simp add: l ready_def)
  show "hardware_id (snd (log_validation_attempt now key res err c)) = hardware_id c"
    by (simp add: l)
qed

lemma ready_head_key:
  "ready c \<Longrightarrow> local_license_cache (pending c) = r # rs \<Longrightarrow> length (license_key r) \<le> 255"
  by (simp add: ready_def db_accepts_def)

lemma fresh_ready: "fresh c \<Longrightarrow> ready c"
  by (simp add: fresh_def)

lemma fresh_clean: "fresh c \<Longrightarrow> pending c = committed c"
  by (simp add: fresh_def clean_def)

lemma log_fresh:
  assumes "ready c" "length key \<le> 255" "length res \<le> 20"
  shows "fresh (snd (log_validation_attempt now key res err c))"
  using log_ready(5,6) [OF assms, of now err] by (simp add: fresh_def clean_def)

lemma validation_except_ready:
  assumes "ready c" "length key \<le> 255"
  shows "validation_except cfg now key e c =
           check_grace_period cfg now
             (snd (log_validation_attempt now key
                     (if is_HTTPError e then ''offline'' else ''failed'') (Some (str_exn e)) c))"
proof -
  have "fst (log_validation_attempt now key
               (if is_HTTPError e then ''offline'' else ''failed'') (Some (str_exn e)) c) = None"
    by (rule log_ready(1) [OF assms]) simp
  then show ?thesis
    by (cases "log_validation_attempt now key
                 (if is_HTTPError e then ''offline'' else ''failed'') (Some (str_exn e)) c")
       (simp add: validation_except_def)
qed

lemma grace_in_try_returns:
  "check_grace_period cfg now c = (Inr v, c') \<Longrightarrow> grace_in_try cfg now key c = (Inr v, c')"
  by (simp add: grace_in_try_def)

lemma validate_failing:
  assumes "fresh c" "local_license_cache (pending c) = r # rs" "\<not> reports_valid resp"
  obtains c1 where "fresh c1" "local_license_cache (pending c1) = r # rs"
    "local_feature_flags (pending c1) = local_feature_flags (pending c)"
    "hardware_id c1 = hardware_id c"
    "\<And>v c2. check_grace_period cfg now c1 = (Inr v, c2)
        \<Longrightarrow> validate_license cfg now resp c = (Inr v, c2)"
proof -
  note found = that
  have rdy: "ready c" using assms(1) by (rule fresh_ready)
  have key: "length (license_key r) \<le> 255" using rdy assms(2) by (rule ready_head_key)
  have direct: thesis
    if "validate_license cfg now resp c = grace_in_try cfg now (license_key r) c"
    using that assms(1,2) by (intro found [of c]) (simp_all add: grace_in_try_returns)
  have logged: thesis
    if "validate_license cfg now resp c = validation_except cfg now (license_key r) e c" for e
  proof -
    let ?res = "if is_HTTPError e then ''offline'' else ''failed''"
    let ?c1 = "snd (log_validation_attempt now (license_key r) ?res (Some (str_exn e)) c)"
    have res: "length ?res \<le> 20" by simp
    have v: "validate_license cfg now resp c = check_grace_period cfg now ?c1"
      using that validation_except_ready [OF rdy key, of cfg now e] by simp
    show thesis
    proof (rule found [of ?c1])
      show "fresh ?c1" by (rule log_fresh [OF rdy key res])
      show "local_license_cache (pending ?c1) = r # rs"
        using log_ready(2) [OF rdy key res, of now "Some (str_exn e)"] assms(2) by simp
      show "local_feature_flags (pending ?c1) = local_feature_flags (pending c)"
        by (rule log_ready(3) [OF rdy key res])
      show "hardware_id ?c1 = hardware_id c"
        by (rule log_ready(7) [OF rdy key res])
      show "validate_license cfg now resp c = (Inr v, c2)"
        if "check_grace_period cfg now ?c1 = (Inr v, c2)" for v c2
        using that v by simp
    qed
  qed
  show thesis
  proof (cases resp)
    case (Raised e)
    then show ?thesis using assms(2)
      by (intro logged [of e]) (simp add: validate_license_def get_cached_license_def)
  next
    case (Json data)
    show ?thesis
    proof (cases "v_success data")
      case False
      then show ?thesis using Json assms(2)
        by (intro direct) (simp add: validate_license_def get_cached_license_def)
    next
      case True
      show ?thesis
      proof (cases "v_data data")
        case Absent
        then show ?thesis using Json True assms(2)
          by (intro logged) (simp add: validate_license_def get_cached_license_def)
      next
        case Malformed
        then show ?thesis using Json True assms(2)
          by (intro logged) (simp add: validate_license_def get_cached_license_def)
      next
        case (Present vd)
        then have "isValid vd = IsFalsy" using assms(3) Json True by simp
        then show ?thesis using Json True Present assms(2)
          by (intro direct) (simp add: validate_license_def get_cached_license_def)
      qed
    qed
  qed
qed

subsection \<open>Records kept\<close>

lemma kept_refl [simp]: "kept r r"
  by (simp add: kept_def)

lemma kept_trans: "kept a b \<Longrightarrow> kept b c \<Longrightarrow> kept a c"
  by (simp add: kept_def)

lemma rows_kept_refl [simp]: "rows_kept xs xs"
  by (simp add: rows_kept_def list_all2_refl)

lemma rows_kept_trans:
  assumes "rows_kept xs ys" "rows_kept ys zs"
  shows "rows_kept xs zs"
proof -
  have l: "length xs \<le> length ys" "length ys \<le> length zs"
    using assms by (simp_all add: rows_kept_def)
  have a: "list_all2 kept xs (take (length xs) ys)"
    using assms(1) by (simp add: rows_kept_def)
  have "list_all2 kept ys (take (length ys) zs)"
    using assms(2) by (simp add: rows_kept_def)
  then have "list_all2 kept (take (length xs) ys) (take (length xs) (take (length ys) zs))"
    by (rule list_all2_takeI)
  then have b: "list_all2 kept (take (length xs) ys) (take (length xs) zs)"
    using l by (simp add: min_def)
  have "list_all2 kept xs (take (length xs) zs)"
    by (rule list_all2_trans [OF _ a b]) (rule kept_trans)
  then show ?thesis using l by (simp add: rows_kept_def)
qed

lemma rows_kept_append [simp]: "rows_kept xs (xs @ ys)"
  by (simp add: rows_kept_def list_all2_refl)

lemma rows_kept_head: "kept r r' \<Longrightarrow> rows_kept (r # rs) (r' # rs)"
  by (simp add: rows_kept_def list_all2_refl)

lemma rows_kept_update_first:
  "(\<And>x. kept x (f x)) \<Longrightarrow> rows_kept xs (update_first p f xs)"
  by (induction xs) (auto simp: rows_kept_def list_all2_refl)

lemma rows_kept_nth:
  assumes "rows_kept xs ys" "i < length xs"
  shows "i < length ys \<and> kept (xs ! i) (ys ! i)"
proof -
  have "list_all2 kept xs (take (length xs) ys)" "length xs \<le> length ys"
    using assms(1) by (simp_all add: rows_kept_def)
  from list_all2_nthD [OF this(1) assms(2)] this(2) assms(2) show ?thesis by simp
qed

subsection \<open>Lists and tables\<close>

lemma update_first_length [simp]: "length (update_first p f xs) = length xs"
  by (induction xs) auto

lemma update_first_keys:
  "(\<And>x. key (f x) = key x) \<Longrightarrow> map key (update_first p f xs) = map key xs"
  by (induction xs) auto

lemma find_key_None: "find (\<lambda>x. key x = k) xs = None \<longleftrightarrow> k \<notin> key ` set xs"
  by (induction xs) auto

lemma find_key_Some: "find (\<lambda>x. key x = k) xs = Some y \<Longrightarrow> y \<in> set xs \<and> key y = k"
  by (induction xs) (auto split: if_splits)

lemma update_first_hit: "find p xs = Some y \<Longrightarrow> f y \<in> set (update_first p f xs)"
  by (induction xs) (auto split: if_splits)

lemma list_all_keys:
  "list_all (\<lambda>x. Q (key x)) xs \<longleftrightarrow> list_all Q (map key xs)"
  by (induction xs) auto

text \<open>The state in which \<open>_store_license_cache\<close> calls \<open>commit\<close>.\<close>

lemma store_cases:
  "(fst (store_license_cache now d c) \<noteq> None \<and> snd (store_license_cache now d c) = c)
   \<or> (\<exists>rows'. add_timedelta now (timedelta_days 30) = Inr (now + timedelta_days 30)
        \<and> licenseKey d \<noteq> Missing
        \<and> map license_key rows' =
            (case licenseKey d of
               Value k \<Rightarrow>
                 (if k \<in> license_key ` set (local_license_cache (pending c))
                  then map license_key (local_license_cache (pending c))
                  else map license_key (local_license_cache (pending c)) @ [k])
             | _ \<Rightarrow> map license_key (local_license_cache (pending c)) @ [[]])
        \<and> rows_kept (local_license_cache (pending c)) rows'
        \<and> (\<forall>k. licenseKey d = Value k \<longrightarrow>
               (\<exists>r \<in> set rows'. license_key r = k \<and> license_data_col r = d
                  \<and> valid_until r = now + timedelta_days 30))
        \<and> store_license_cache now d c =
            commit (c\<lparr>pending := (pending c)\<lparr>local_license_cache := rows'\<rparr>,
                      refused := (refused c \<or> licenseKey d = Null \<or> signature d = Null)\<rparr>))"
proof (cases "licenseKey d = Missing \<or> (\<exists>e. add_timedelta now (timedelta_days 30) = Inl e)")
  case True
  then have "fst (store_license_cache now d c) \<noteq> None \<and> snd (store_license_cache now d c) = c"
    by (cases "licenseKey d") (auto simp: store_license_cache_def Let_def)
  then show ?thesis by (rule disjI1)
next
  case False
  then have t: "add_timedelta now (timedelta_days 30) = Inr (now + timedelta_days 30)"
    by (auto simp: add_timedelta_def split: if_splits)
  have key: "licenseKey d \<noteq> Missing" using False by simp
  let ?rows = "local_license_cache (pending c)"
  let ?sig = "case signature d of Value s \<Rightarrow> s | _ \<Rightarrow> []"
  let ?f = "\<lambda>r. r\<lparr>license_data_col := d, cached_at := now,
                   valid_until := now + timedelta_days 30, is_valid := True,
                   license_signature := ?sig\<rparr>"
  have kept: "rows_kept ?rows (update_first p ?f ?rows)" for p
    by (rule rows_kept_update_first) (simp add: kept_def grace_stamped_def)
  show ?thesis
  proof (cases "licenseKey d")
    case Missing
    with key show ?thesis by simp
  next
    case Null
    let ?new = "\<lparr>license_key = [], license_data_col = d, cached_at = now,
                  valid_until = now + timedelta_days 30, last_validated_at = None,
                  is_valid = True, validation_error = None, in_grace_period = False,
                  grace_period_started_at = None, grace_period_expires_at = None,
                  license_signature = ?sig\<rparr>"
    have "store_license_cache now d c =
            commit (c\<lparr>pending := (pending c)\<lparr>local_license_cache := ?rows @ [?new]\<rparr>,
                      refused := (refused c \<or> licenseKey d = Null \<or> signature d = Null)\<rparr>)"
      using Null t by (simp add: store_license_cache_def Let_def)
    then show ?thesis using Null t
      by (intro disjI2 exI [of _ "?rows @ [?new]"]) simp
  next
    case (Value k)
    show ?thesis
    proof (cases "find (\<lambda>r. license_key r = k) ?rows")
      case None
      let ?new = "\<lparr>license_key = k, license_data_col = d, cached_at = now,
                    valid_until = now + timedelta_days 30, last_validated_at = None,
                    is_valid = True, validation_error = None, in_grace_period = False,
                    grace_period_started_at = None, grace_period_expires_at = None,
                    license_signature = ?sig\<rparr>"
      have k: "k \<notin> license_key ` set ?rows" using None by (simp add: find_key_None)
      have "store_license_cache now d c =
              commit (c\<lparr>pending := (pending c)\<lparr>local_license_cache := ?rows @ [?new]\<rparr>,
                        refused := (refused c \<or> licenseKey d = Null \<or> signature d = Null)\<rparr>)"
        using Value None t by (simp add: store_license_cache_def Let_def)
      then show ?thesis using Value t k
        by (intro disjI2 exI [of _ "?rows @ [?new]"]) simp
    next
      case (Some y)
      have k: "k \<in> license_key ` set ?rows" using find_key_Some [OF Some] by force
      have st: "store_license_cache now d c =
              commit (c\<lparr>pending := (pending c)\<lparr>local_license_cache :=
                          update_first (\<lambda>r. license_key r = k) ?f ?rows\<rparr>,
                        refused := (refused c \<or> licenseKey d = Null \<or> signature d = Null)\<rparr>)"
        using Value Some t by (simp add: store_license_cache_def Let_def)
      have hit: "?f y \<in> set (update_first (\<lambda>r. license_key r = k) ?f ?rows)"
        using Some by (rule update_first_hit)
      have "\<exists>r \<in> set (update_first (\<lambda>r. license_key r = k) ?f ?rows).
              license_key r = k \<and> license_data_col r = d
              \<and> valid_until r = now + timedelta_days 30"
        using hit find_key_Some [OF Some] by (intro bexI [of _ "?f y"]) simp_all
      then show ?thesis using Value t k kept [of "\<lambda>r. license_key r = k"] st
        by (intro disjI2 exI [of _ "update_first (\<lambda>r. license_key r = k) ?f ?rows"])
           (simp add: update_first_keys)
    qed
  qed
qed

lemma update_first_set:
  assumes "distinct (map key xs)" "\<And>x. key (f x) = key x"
  shows "h \<in> set (update_first (\<lambda>x. key x = k) f xs) \<longleftrightarrow>
           (h \<in> set xs \<and> key h \<noteq> k) \<or> (\<exists>g \<in> set xs. key g = k \<and> h = f g)"
  using assms(1)
proof (induction xs)
  case Nil
  then show ?case by simp
next
  case (Cons x xs)
  then show ?case using assms(2) by (auto simp: image_iff)
qed

lemma sync_loop_keys:
  "map feature_key (fst (sync_loop now ks tbl added)) = map feature_key tbl"
  by (induction ks arbitrary: tbl added)
     (auto simp: update_first_keys split: option.splits)

lemma sync_loop_licensed:
  assumes "distinct (map feature_key tbl)"
  shows "\<forall>h \<in> set (fst (sync_loop now ks tbl added)).
           licensed h = (feature_key h \<in> set ks
                         \<or> (\<exists>g \<in> set tbl. feature_key g = feature_key h \<and> licensed g))"
  using assms
proof (induction ks arbitrary: tbl added)
  case Nil
  then show ?case by (auto simp: distinct_map inj_on_def)
next
  case (Cons k ks)
  show ?case
  proof (cases "find (\<lambda>f. feature_key f = k) tbl")
    case None
    let ?added = "added @ [\<lparr>feature_key = k, enabled = True, licensed = True,
                            system_enabled = True, synced_at = now\<rparr>]"
    have k: "k \<notin> feature_key ` set tbl" using None by (simp add: find_key_None)
    have "\<forall>h \<in> set (fst (sync_loop now ks tbl ?added)). feature_key h \<noteq> k"
    proof
      fix h assume "h \<in> set (fst (sync_loop now ks tbl ?added))"
      then have "feature_key h \<in> set (map feature_key (fst (sync_loop now ks tbl ?added)))"
        by simp
      then show "feature_key h \<noteq> k" using k by (auto simp: sync_loop_keys)
    qed
    with Cons.IH [OF Cons.prems, of ?added] None show ?thesis by auto
  next
    case (Some y)
    let ?upd = "\<lambda>f. f\<lparr>licensed := True, synced_at := now\<rparr>"
    let ?tbl = "update_first (\<lambda>f. feature_key f = k) ?upd tbl"
    have y: "y \<in> set tbl" "feature_key y = k" using find_key_Some [OF Some] by simp_all
    have d: "distinct (map feature_key ?tbl)"
      using Cons.prems by (simp add: update_first_keys)
    have mem: "\<And>h. h \<in> set ?tbl \<longleftrightarrow>
                 (h \<in> set tbl \<and> feature_key h \<noteq> k)
                 \<or> (\<exists>g \<in> set tbl. feature_key g = k \<and> h = ?upd g)"
      by (rule update_first_set [OF Cons.prems]) simp
    have ex: "(\<exists>g \<in> set ?tbl. feature_key g = feature_key h \<and> licensed g) \<longleftrightarrow>
                 feature_key h = k
                 \<or> (\<exists>g \<in> set tbl. feature_key g = feature_key h \<and> licensed g)"
      (is "?L \<longleftrightarrow> ?R") for h :: LocalFeatureFlag
    proof
      assume ?L
      then obtain g where g: "g \<in> set ?tbl" "feature_key g = feature_key h" "licensed g"
        by blast
      from g(1) have "(g \<in> set tbl \<and> feature_key g \<noteq> k)
                      \<or> (\<exists>g' \<in> set tbl. feature_key g' = k \<and> g = ?upd g')"
        by (simp only: mem)
      then show ?R using g(2,3) by auto
    next
      assume ?R
      then show ?L
      proof
        assume hk: "feature_key h = k"
        have "?upd y \<in> set ?tbl" using y by (intro mem [THEN iffD2]) blast
        moreover have "feature_key (?upd y) = feature_key h" "licensed (?upd y)"
          using y hk by simp_all
        ultimately show ?L by blast
      next
        assume "\<exists>g \<in> set tbl. feature_key g = feature_key h \<and> licensed g"
        then obtain g where g: "g \<in> set tbl" "feature_key g = feature_key h" "licensed g"
          by blast
        show ?L
        proof (cases "feature_key g = k")
          case True
          have "?upd g \<in> set ?tbl" using g(1) True by (intro mem [THEN iffD2]) blast
          moreover have "feature_key (?upd g) = feature_key h" "licensed (?upd g)"
            using g(2) by simp_all
          ultimately show ?thesis by blast
        next
          case False
          have "g \<in> set ?tbl" using g(1) False by (intro mem [THEN iffD2]) blast
          then show ?thesis using g(2,3) by blast
        qed
      qed
    qed
    from Cons.IH [OF d, of added] Some show ?thesis by (auto simp: ex)
  qed
qed

lemma sync_loop_added:
  "h \<in> set (snd (sync_loop now ks tbl added)) \<Longrightarrow>
     h \<in> set added \<or> (licensed h \<and> feature_key h \<in> set ks)"
proof (induction ks arbitrary: tbl added)
  case Nil
  then show ?case by simp
next
  case (Cons k ks)
  show ?case
  proof (cases "find (\<lambda>f. feature_key f = k) tbl")
    case None
    let ?new = "\<lparr>feature_key = k, enabled = True, licensed = True,
                  system_enabled = True, synced_at = now\<rparr>"
    have "h \<in> set (snd (sync_loop now ks tbl (added @ [?new])))"
      using Cons.prems None by simp
    from Cons.IH [OF this] show ?thesis by auto
  next
    case (Some y)
    have "h \<in> set (snd (sync_loop now ks
            (update_first (\<lambda>f. feature_key f = k)
               (\<lambda>f. f\<lparr>licensed := True, synced_at := now\<rparr>) tbl) added))"
      using Cons.prems Some by simp
    from Cons.IH [OF this] show ?thesis by auto
  qed
qed

lemma sync_loop_added_mono:
  "h \<in> set added \<Longrightarrow> h \<in> set (snd (sync_loop now ks tbl added))"
proof (induction ks arbitrary: tbl added)
  case Nil
  then show ?case by simp
next
  case (Cons k ks)
  show ?case
  proof (cases "find (\<lambda>f. feature_key f = k) tbl")
    case None
    let ?new = "\<lparr>feature_key = k, enabled = True, licensed = True,
                  system_enabled = True, synced_at = now\<rparr>"
    have "h \<in> set (added @ [?new])" using Cons.prems by simp
    from Cons.IH [OF this, of tbl] None show ?thesis by simp
  next
    case (Some y)
    from Cons.IH [OF Cons.prems] Some show ?thesis by simp
  qed
qed

lemma sync_loop_covers:
  "k \<in> set ks \<Longrightarrow>
     k \<in> feature_key ` set tbl \<or> k \<in> feature_key ` set (snd (sync_loop now ks tbl added))"
proof (induction ks arbitrary: tbl added)
  case Nil
  then show ?case by simp
next
  case (Cons a ks)
  show ?case
  proof (cases "find (\<lambda>f. feature_key f = a) tbl")
    case None
    let ?new = "\<lparr>feature_key = a, enabled = True, licensed = True,
                  system_enabled = True, synced_at = now\<rparr>"
    show ?thesis
    proof (cases "k = a")
      case True
      have "?new \<in> set (snd (sync_loop now ks tbl (added @ [?new])))"
        by (rule sync_loop_added_mono) simp
      then have "feature_key ?new \<in> feature_key ` set (snd (sync_loop now ks tbl (added @ [?new])))"
        by (rule imageI)
      then show ?thesis using None True by simp
    next
      case False
      then have "k \<in> set ks" using Cons.prems by simp
      from Cons.IH [OF this, of tbl "added @ [?new]"] None show ?thesis by simp
    qed
  next
    case (Some y)
    let ?tbl = "update_first (\<lambda>f. feature_key f = a)
                  (\<lambda>f. f\<lparr>licensed := True, synced_at := now\<rparr>) tbl"
    have "map feature_key ?tbl = map feature_key tbl"
      by (simp add: update_first_keys)
    then have "set (map feature_key ?tbl) = set (map feature_key tbl)"
      by (rule arg_cong)
    then have keys: "feature_key ` set ?tbl = feature_key ` set tbl"
      by (simp only: set_map)
    show ?thesis
    proof (cases "k = a")
      case True
      then show ?thesis using find_key_Some [OF Some] by auto
    next
      case False
      then have "k \<in> set ks" using Cons.prems by simp
      from Cons.IH [OF this, of ?tbl added] Some keys show ?thesis by simp
    qed
  qed
qed

lemma update_first_key_set:
  "(\<And>x. key (f x) = key x) \<Longrightarrow> key ` set (update_first p f xs) = key ` set xs"
proof -
  assume "\<And>x. key (f x) = key x"
  then have "map key (update_first p f xs) = map key xs" by (rule update_first_keys)
  then have "set (map key (update_first p f xs)) = set (map key xs)" by (rule arg_cong)
  then show ?thesis by (simp only: set_map)
qed

lemma sync_loop_distinct:
  assumes "distinct ks" "distinct (map feature_key added)"
    "feature_key ` set added \<inter> set ks = {}"
    "feature_key ` set added \<inter> feature_key ` set tbl = {}"
  shows "distinct (map feature_key (snd (sync_loop now ks tbl added)))
       \<and> feature_key ` set (snd (sync_loop now ks tbl added)) \<inter> feature_key ` set tbl = {}"
  using assms
proof (induction ks arbitrary: tbl added)
  case Nil
  then show ?case by simp
next
  case (Cons k ks)
  show ?case
  proof (cases "find (\<lambda>f. feature_key f = k) tbl")
    case None
    let ?new = "\<lparr>feature_key = k, enabled = True, licensed = True,
                  system_enabled = True, synced_at = now\<rparr>"
    have k: "k \<notin> feature_key ` set tbl" using None by (simp add: find_key_None)
    have a: "distinct ks" using Cons.prems(1) by simp
    have b: "distinct (map feature_key (added @ [?new]))"
      using Cons.prems(2,3) by auto
    have c: "feature_key ` set (added @ [?new]) \<inter> set ks = {}"
      using Cons.prems(1,3) by auto
    have d: "feature_key ` set (added @ [?new]) \<inter> feature_key ` set tbl = {}"
      using Cons.prems(4) k by auto
    from Cons.IH [OF a b c d] None show ?thesis by simp
  next
    case (Some y)
    let ?tbl = "update_first (\<lambda>f. feature_key f = k)
                  (\<lambda>f. f\<lparr>licensed := True, synced_at := now\<rparr>) tbl"
    have keys: "feature_key ` set ?tbl = feature_key ` set tbl"
      by (rule update_first_key_set) simp
    have a: "distinct ks" using Cons.prems(1) by simp
    have c: "feature_key ` set added \<inter> set ks = {}"
      using Cons.prems(3) by auto
    have d: "feature_key ` set added \<inter> feature_key ` set ?tbl = {}"
      using Cons.prems(4) by (simp only: keys)
    from Cons.IH [OF a Cons.prems(2) c d] Some show ?thesis by (simp add: keys)
  qed
qed

lemma sync_loop_lengths:
  assumes "list_all (\<lambda>k. length k \<le> n) ks"
    "list_all (\<lambda>f. length (feature_key f) \<le> n) added"
  shows "list_all (\<lambda>f. length (feature_key f) \<le> n) (snd (sync_loop now ks tbl added))"
  using assms
proof (induction ks arbitrary: tbl added)
  case Nil
  then show ?case by simp
next
  case (Cons k ks)
  then show ?case by (cases "find (\<lambda>f. feature_key f = k) tbl") simp_all
qed

text \<open>The flag table that \<open>_sync_feature_flags\<close> commits.\<close>

lemma sync_state:
  "sync_feature_flags now d c =
     (if enabledFeatures d = Malformed then
        (Some (TypeError ''object is not iterable''),
         c\<lparr>pending := (pending c)\<lparr>local_feature_flags :=
              map (\<lambda>f. f\<lparr>licensed := False\<rparr>) (local_feature_flags (pending c))\<rparr>\<rparr>)
      else
        commit (c\<lparr>pending := (pending c)\<lparr>local_feature_flags :=
          fst (sync_loop now (enabled_list d)
                 (map (\<lambda>f. f\<lparr>licensed := False\<rparr>) (local_feature_flags (pending c))) []) @
          snd (sync_loop now (enabled_list d)
                 (map (\<lambda>f. f\<lparr>licensed := False\<rparr>) (local_feature_flags (pending c))) [])\<rparr>\<rparr>))"
  by (cases "enabledFeatures d") (simp_all add: sync_feature_flags_def Let_def split_beta)

lemma synced_flags:
  fixes tbl :: "LocalFeatureFlag list"
  defines "reset \<equiv> map (\<lambda>f. f\<lparr>licensed := False\<rparr>) tbl"
  assumes "distinct (map feature_key tbl)"
  shows "f \<in> set (fst (sync_loop now ks reset []) @ snd (sync_loop now ks reset [])) \<Longrightarrow>
           licensed f = (feature_key f \<in> set ks)"
    and "set ks \<subseteq> feature_key `
           set (fst (sync_loop now ks reset []) @ snd (sync_loop now ks reset []))"
    and "distinct ks \<Longrightarrow>
           distinct (map feature_key
             (fst (sync_loop now ks reset []) @ snd (sync_loop now ks reset [])))"
    and "list_all (\<lambda>k. length k \<le> n) ks \<Longrightarrow>
         list_all (\<lambda>f. length (feature_key f) \<le> n) tbl \<Longrightarrow>
           list_all (\<lambda>f. length (feature_key f) \<le> n)
             (fst (sync_loop now ks reset []) @ snd (sync_loop now ks reset []))"
proof -
  let ?L = "sync_loop now ks reset []"
  have keys: "map feature_key reset = map feature_key tbl"
    by (simp add: reset_def comp_def)
  have k1: "map feature_key (fst ?L) = map feature_key tbl"
    by (simp only: sync_loop_keys keys)
  have "set (map feature_key (fst ?L)) = set (map feature_key reset)"
    by (simp only: sync_loop_keys)
  then have k2: "feature_key ` set (fst ?L) = feature_key ` set reset"
    by (simp only: set_map)
  have dr: "distinct (map feature_key reset)" unfolding keys using assms(2) .
  have unl: "\<not> (\<exists>g \<in> set reset. feature_key g = feature_key h \<and> licensed g)"
    for h :: LocalFeatureFlag
    by (auto simp: reset_def)
  show "licensed f = (feature_key f \<in> set ks)" if f: "f \<in> set (fst ?L @ snd ?L)"
  proof -
    from f have "f \<in> set (fst ?L) \<or> f \<in> set (snd ?L)" by simp
    then show ?thesis
    proof
      assume "f \<in> set (fst ?L)"
      with sync_loop_licensed [OF dr, of now ks "[]"] unl [of f]
      show ?thesis by blast
    next
      assume "f \<in> set (snd ?L)"
      from sync_loop_added [OF this] show ?thesis by simp
    qed
  qed
  show "set ks \<subseteq> feature_key ` set (fst ?L @ snd ?L)"
  proof
    fix k assume "k \<in> set ks"
    from sync_loop_covers [OF this, of reset now "[]"]
    have cov: "k \<in> feature_key ` set reset \<or> k \<in> feature_key ` set (snd ?L)" .
    then have "k \<in> feature_key ` set (fst ?L) \<or> k \<in> feature_key ` set (snd ?L)"
      by (simp only: k2)
    then show "k \<in> feature_key ` set (fst ?L @ snd ?L)"
      by (simp only: set_append image_Un Un_iff)
  qed
  show "distinct (map feature_key (fst ?L @ snd ?L))" if ks: "distinct ks"
  proof -
    have "distinct (map feature_key (snd ?L))
         \<and> feature_key ` set (snd ?L) \<inter> feature_key ` set reset = {}"
      by (rule sync_loop_distinct [OF ks]) simp_all
    then have "distinct (map feature_key (snd ?L))"
      "feature_key ` set (fst ?L) \<inter> feature_key ` set (snd ?L) = {}"
      by (auto simp only: k2)
    moreover have "distinct (map feature_key (fst ?L))"
      using assms(2) by (simp only: k1)
    ultimately show ?thesis
      by (simp only: map_append distinct_append set_map simp_thms)
  qed
  show "list_all (\<lambda>f. length (feature_key f) \<le> n) (fst ?L @ snd ?L)"
    if ks: "list_all (\<lambda>k. length k \<le> n) ks"
      and tbl: "list_all (\<lambda>f. length (feature_key f) \<le> n) tbl"
  proof -
    have "list_all (\<lambda>k. length k \<le> n) (map feature_key tbl)"
      using tbl by (simp only: list_all_keys [of "\<lambda>k. length k \<le> n" feature_key])
    then have "list_all (\<lambda>k. length k \<le> n) (map feature_key (fst ?L))"
      by (simp only: k1)
    then have a: "list_all (\<lambda>f. length (feature_key f) \<le> n) (fst ?L)"
      by (simp only: list_all_keys [of "\<lambda>k. length k \<le> n" feature_key])
    have b: "list_all (\<lambda>f. length (feature_key f) \<le> n) (snd ?L)"
      by (rule sync_loop_lengths [OF ks]) simp
    from a b show ?thesis by simp
  qed
qed

lemma store_fresh:
  assumes "fresh c"
  shows "fst (store_license_cache now d c) \<noteq> None \<Longrightarrow>
           committed (snd (store_license_cache now d c)) = committed c
         \<and> pending (snd (store_license_cache now d c)) = pending c
         \<and> hardware_id (snd (store_license_cache now d c)) = hardware_id c"
    and "fst (store_license_cache now d c) = None \<Longrightarrow>
           fresh (snd (store_license_cache now d c))
         \<and> hardware_id (snd (store_license_cache now d c)) = hardware_id c
         \<and> local_feature_flags (pending (snd (store_license_cache now d c))) =
             local_feature_flags (pending c)
         \<and> local_license_validation_attempts (pending (snd (store_license_cache now d c))) =
             local_license_validation_attempts (pending c)
         \<and> (\<exists>k. licenseKey d = Value k
              \<and> (\<exists>r \<in> set (local_license_cache (pending (snd (store_license_cache now d c)))).
                    license_key r = k \<and> license_data_col r = d
                    \<and> valid_until r = now + timedelta_days 30))"
    and "licenseKey d \<noteq> Null \<Longrightarrow> signature d \<noteq> Null \<Longrightarrow>
         (\<forall>k. licenseKey d = Value k \<longrightarrow> length k \<le> 255) \<Longrightarrow>
         fst (store_license_cache now d c) \<noteq> None \<Longrightarrow>
           snd (store_license_cache now d c) = c"
proof -
  have pc: "committed c = pending c" using assms by (simp add: fresh_def clean_def)
  have rdy: "\<not> needs_rollback c" "\<not> refused c" "db_accepts (pending c)"
    "length (hardware_id c) \<le> 255"
    using assms by (simp_all add: fresh_def ready_def)
  from store_cases [of now d c]
  consider (raised) "fst (store_license_cache now d c) \<noteq> None"
      "snd (store_license_cache now d c) = c"
    | (committing) rows' where
      "licenseKey d \<noteq> Missing"
      "map license_key rows' =
         (case licenseKey d of
            Value k \<Rightarrow>
              (if k \<in> license_key ` set (local_license_cache (pending c))
               then map license_key (local_license_cache (pending c))
               else map license_key (local_license_cache (pending c)) @ [k])
          | _ \<Rightarrow> map license_key (local_license_cache (pending c)) @ [[]])"
      "\<forall>k. licenseKey d = Value k \<longrightarrow>
         (\<exists>r \<in> set rows'. license_key r = k \<and> license_data_col r = d
            \<and> valid_until r = now + timedelta_days 30)"
      "store_license_cache now d c =
         commit (c\<lparr>pending := (pending c)\<lparr>local_license_cache := rows'\<rparr>,
                   refused := (refused c \<or> licenseKey d = Null \<or> signature d = Null)\<rparr>)"
    by blast
  note split = this
  show "committed (snd (store_license_cache now d c)) = committed c
         \<and> pending (snd (store_license_cache now d c)) = pending c
         \<and> hardware_id (snd (store_license_cache now d c)) = hardware_id c"
    if "fst (store_license_cache now d c) \<noteq> None"
  proof (cases rule: split)
    case raised
    then show ?thesis by simp
  next
    case (committing rows')
    then show ?thesis using that rdy(1) pc
      by (auto simp: commit_def split: if_splits)
  qed
  show "fresh (snd (store_license_cache now d c))
         \<and> hardware_id (snd (store_license_cache now d c)) = hardware_id c
         \<and> local_feature_flags (pending (snd (store_license_cache now d c))) =
             local_feature_flags (pending c)
         \<and> local_license_validation_attempts (pending (snd (store_license_cache now d c))) =
             local_license_validation_attempts (pending c)
         \<and> (\<exists>k. licenseKey d = Value k
              \<and> (\<exists>r \<in> set (local_license_cache (pending (snd (store_license_cache now d c)))).
                    license_key r = k \<and> license_data_col r = d
                    \<and> valid_until r = now + timedelta_days 30))"
    if "fst (store_license_cache now d c) = None"
  proof (cases rule: split)
    case raised
    then show ?thesis using that by simp
  next
    case (committing rows')
    let ?c = "c\<lparr>pending := (pending c)\<lparr>local_license_cache := rows'\<rparr>,
                 refused := (refused c \<or> licenseKey d = Null \<or> signature d = Null)\<rparr>"
    have ok: "\<not> refused ?c" "db_accepts (pending ?c)"
      using that committing(4) rdy(1) by (auto simp: commit_def split: if_splits)
    then have st: "store_license_cache now d c = (None, ?c\<lparr>committed := pending ?c\<rparr>)"
      using committing(4) rdy(1) by (simp add: commit_def)
    obtain k where k: "licenseKey d = Value k"
      using ok(1) committing(1) by (cases "licenseKey d") simp_all
    have "fresh (?c\<lparr>committed := pending ?c\<rparr>)"
      using ok rdy(1,4) by (simp add: fresh_def clean_def ready_def)
    then show ?thesis using st k committing(3) by simp
  qed
  show "snd (store_license_cache now d c) = c"
    if h: "licenseKey d \<noteq> Null" "signature d \<noteq> Null"
      "\<forall>k. licenseKey d = Value k \<longrightarrow> length k \<le> 255"
      "fst (store_license_cache now d c) \<noteq> None"
  proof (cases rule: split)
    case raised
    then show ?thesis by simp
  next
    case (committing rows')
    let ?c = "c\<lparr>pending := (pending c)\<lparr>local_license_cache := rows'\<rparr>,
                 refused := (refused c \<or> licenseKey d = Null \<or> signature d = Null)\<rparr>"
    obtain k where k: "licenseKey d = Value k"
      using h(1) committing(1) by (cases "licenseKey d") simp_all
    have len: "length k \<le> 255" using h(3) k by simp
    have old: "distinct (map license_key (local_license_cache (pending c)))"
      "list_all (\<lambda>k. length k \<le> 255) (map license_key (local_license_cache (pending c)))"
      using rdy(3) by (simp_all add: db_accepts_def list_all_keys [symmetric])
    have "distinct (map license_key rows')"
      "list_all (\<lambda>k. length k \<le> 255) (map license_key rows')"
      using old len k by (simp_all add: committing(2))
    then have "db_accepts (pending ?c)"
      using rdy(3) by (simp add: db_accepts_def list_all_keys [symmetric])
    then have "fst (store_license_cache now d c) = None"
      using committing(4) rdy(1,2) h(1,2) by (simp add: commit_def)
    with h(4) show ?thesis by simp
  qed
qed

lemma sync_fresh:
  assumes "fresh c"
  shows "fst (sync_feature_flags now d c) \<noteq> None \<Longrightarrow>
           committed (snd (sync_feature_flags now d c)) = committed c"
    and "hardware_id (snd (sync_feature_flags now d c)) = hardware_id c"
    and "local_license_validation_attempts (pending (snd (sync_feature_flags now d c))) =
           local_license_validation_attempts (pending c)"
    and "local_license_cache (pending (snd (sync_feature_flags now d c))) =
           local_license_cache (pending c)"
    and "fst (sync_feature_flags now d c) = None \<Longrightarrow>
           fresh (snd (sync_feature_flags now d c))
         \<and> enabledFeatures d \<noteq> Malformed
         \<and> local_feature_flags (pending (snd (sync_feature_flags now d c))) =
             fst (sync_loop now (enabled_list d)
                    (map (\<lambda>f. f\<lparr>licensed := False\<rparr>) (local_feature_flags (pending c))) []) @
             snd (sync_loop now (enabled_list d)
                    (map (\<lambda>f. f\<lparr>licensed := False\<rparr>) (local_feature_flags (pending c))) [])"
    and "distinct (enabled_list d) \<Longrightarrow> list_all (\<lambda>k. length k \<le> 100) (enabled_list d) \<Longrightarrow>
           ready (snd (sync_feature_flags now d c))
         \<and> (enabledFeatures d \<noteq> Malformed \<longrightarrow> fst (sync_feature_flags now d c) = None)"
proof -
  let ?reset = "map (\<lambda>f. f\<lparr>licensed := False\<rparr>) (local_feature_flags (pending c))"
  let ?L = "sync_loop now (enabled_list d) ?reset []"
  let ?c = "c\<lparr>pending := (pending c)\<lparr>local_feature_flags := fst ?L @ snd ?L\<rparr>\<rparr>"
  have pc: "committed c = pending c" using assms by (simp add: fresh_def clean_def)
  have rdy: "\<not> needs_rollback c" "\<not> refused c" "db_accepts (pending c)"
    "length (hardware_id c) \<le> 255"
    using assms by (simp_all add: fresh_def ready_def)
  note st = sync_state [of now d c]
  show "committed (snd (sync_feature_flags now d c)) = committed c"
    if "fst (sync_feature_flags now d c) \<noteq> None"
    using that by (auto simp: st commit_def split: if_splits)
  show "hardware_id (snd (sync_feature_flags now d c)) = hardware_id c"
    by (simp add: st)
  show "local_license_validation_attempts (pending (snd (sync_feature_flags now d c))) =
           local_license_validation_attempts (pending c)"
    by (simp add: st commit_def pc)
  show "local_license_cache (pending (snd (sync_feature_flags now d c))) =
           local_license_cache (pending c)"
    by (simp add: st commit_def pc)
  show "fresh (snd (sync_feature_flags now d c))
         \<and> enabledFeatures d \<noteq> Malformed
         \<and> local_feature_flags (pending (snd (sync_feature_flags now d c))) = fst ?L @ snd ?L"
    if "fst (sync_feature_flags now d c) = None"
  proof -
    have ok: "enabledFeatures d \<noteq> Malformed" using that by (auto simp: st)
    then have "db_accepts (pending ?c)"
      using that rdy(1) by (auto simp: st commit_def split: if_splits)
    then have "sync_feature_flags now d c = (None, ?c\<lparr>committed := pending ?c\<rparr>)"
      using ok rdy(1,2) by (simp add: st commit_def)
    moreover have "fresh (?c\<lparr>committed := pending ?c\<rparr>)"
      using \<open>db_accepts (pending ?c)\<close> rdy(1,2,4) by (simp add: fresh_def clean_def ready_def)
    ultimately show ?thesis using ok by simp
  qed
  show "ready (snd (sync_feature_flags now d c))
         \<and> (enabledFeatures d \<noteq> Malformed \<longrightarrow> fst (sync_feature_flags now d c) = None)"
    if ks: "distinct (enabled_list d)" "list_all (\<lambda>k. length k \<le> 100) (enabled_list d)"
  proof (cases "enabledFeatures d = Malformed")
    case True
    have "db_accepts ((pending c)\<lparr>local_feature_flags := ?reset\<rparr>)"
      using rdy(3) by (simp add: db_accepts_def comp_def list_all_iff)
    then show ?thesis using True rdy(1,2,4) by (simp add: st ready_def)
  next
    case False
    have old: "distinct (map feature_key (local_feature_flags (pending c)))"
      "list_all (\<lambda>f. length (feature_key f) \<le> 100) (local_feature_flags (pending c))"
      using rdy(3) by (simp_all add: db_accepts_def)
    have "distinct (map feature_key (fst ?L @ snd ?L))"
      by (rule synced_flags(3) [OF old(1) ks(1)])
    moreover have "list_all (\<lambda>f. length (feature_key f) \<le> 100) (fst ?L @ snd ?L)"
      by (rule synced_flags(4) [OF old(1) ks(2) old(2)])
    ultimately have "db_accepts (pending ?c)"
      using rdy(3) by (simp add: db_accepts_def)
    then have "sync_feature_flags now d c = (None, ?c\<lparr>committed := pending ?c\<rparr>)"
      using False rdy(1,2) by (simp add: st commit_def)
    moreover have "ready (?c\<lparr>committed := pending ?c\<rparr>)"
      using \<open>db_accepts (pending ?c)\<close> rdy(1,2,4) by (simp add: ready_def)
    ultimately show ?thesis by simp
  qed
qed

subsection \<open>The grace-period policy\<close>

lemma check_grace_short:
  assumes "local_license_cache (pending c) = r # rs" "valid_until r > now"
  shows "check_grace_period cfg now c =
     (Inr (no_result\<lparr>valid := True, inGracePeriod := Some True,
                      validUntil := Some (valid_until r),
                      license := Value (license_data_col r)\<rparr>), c)"
  using assms by (simp add: check_grace_period_def)





lemma validate_short:
  assumes "fresh c" "local_license_cache (pending c) = r # rs" "now < valid_until r"
    "\<not> reports_valid resp"
  shows "fst (validate_license cfg now resp c) =
           Inr (no_result\<lparr>valid := True, inGracePeriod := Some True,
                            validUntil := Some (valid_until r),
                            license := Value (license_data_col r)\<rparr>)
       \<and> local_license_cache (pending (snd (validate_license cfg now resp c))) = r # rs
       \<and> fresh (snd (validate_license cfg now resp c))"
proof (rule validate_failing [OF assms(1,2,4), where cfg = cfg and now = now])
  fix c1
  assume c1: "fresh c1" "local_license_cache (pending c1) = r # rs"
    "\<And>v c2. check_grace_period cfg now c1 = (Inr v, c2)
        \<Longrightarrow> validate_license cfg now resp c = (Inr v, c2)"
  from c1(3) [OF check_grace_short [OF c1(2) assms(3)]] c1(1,2) show ?thesis by simp
qed






text \<open>
  C3. On a session that can commit, for a cached license whose \<open>valid_until\<close> is strictly
  in the future, a validation that fails (the authority rejects the license, answers
  without \<open>success\<close> or without \<open>data\<close>, or the request raises) returns \<open>valid\<close> true
  and \<open>inGracePeriod\<close> true with the stored \<open>valid_until\<close>, and the committed license
  table is the one before the call: no grace clock is started and \<open>in_grace_period\<close>,
  \<open>grace_period_started_at\<close> and \<open>grace_period_expires_at\<close> are unchanged.
\<close>

theorem validate_within_valid_until:
  assumes "fresh c" "local_license_cache (committed c) = r # rs" "now < valid_until r"
    "\<not> reports_valid resp"
  shows "fst (validate_license cfg now resp c) =
           Inr (no_result\<lparr>valid := True, inGracePeriod := Some True,
                            validUntil := Some (valid_until r),
                            license := Value (license_data_col r)\<rparr>)
       \<and> local_license_cache (committed (snd (validate_license cfg now resp c))) = r # rs
       \<and> clean (snd (validate_license cfg now resp c))"
proof -
  have p: "local_license_cache (pending c) = r # rs"
    using assms(1,2) by (simp add: fresh_clean)
  note v = validate_short [OF assms(1) p assms(3,4), of cfg]
  then have "committed (snd (validate_license cfg now resp c)) =
               pending (snd (validate_license cfg now resp c))"
    by (simp add: fresh_clean)
  with v show ?thesis by (simp add: fresh_def)
qed

theorem validate_within_valid_until_witness:
  "fresh (client_with [cached_row 1000 False None None] [])
   \<and> (10::int) < valid_until (cached_row 1000 False None None)
   \<and> \<not> reports_valid (Raised (TransportError ''timeout''))
   \<and> map_option validUntil (returned (fst (validate_license default_settings 10
         (Raised (TransportError ''timeout''))
         (client_with [cached_row 1000 False None None] [])))) = Some (Some 1000)
   \<and> local_license_cache (committed (snd (validate_license default_settings 10
         (Raised (TransportError ''timeout''))
         (client_with [cached_row 1000 False None None] []))))
       = [cached_row 1000 False None None]"
  using validate_within_valid_until
    [of "client_with [cached_row 1000 False None None] []" "cached_row 1000 False None None"
        "[]" 10 "Raised (TransportError ''timeout'')" default_settings]
  by (simp add: fresh_def clean_def ready_def db_accepts_def client_with_def cached_row_def)




text \<open>
  With a grace period that takes \<open>now\<close> past the last date of \<open>datetime\<close> the failing
  validation raises \<open>OverflowError\<close> and stores no window.
\<close>

lemma grace_start_overflow:
  "fst (validate_license (default_settings\<lparr>OFFLINE_GRACE_PERIOD_HOURS := 100000000\<rparr>) 100
          (Raised (TransportError ''timeout''))
          (client_with [cached_row 50 False None None] []))
     = Inl (OverflowError ''date value out of range'')
   \<and> local_license_cache (committed (snd
        (validate_license (default_settings\<lparr>OFFLINE_GRACE_PERIOD_HOURS := 100000000\<rparr>) 100
          (Raised (TransportError ''timeout''))
          (client_with [cached_row 50 False None None] []))))
     = [cached_row 50 False None None]"
  by (simp add: client_with_def cached_row_def default_settings_def
        validate_license_def validation_except_def check_grace_period_def
        log_validation_attempt_def get_cached_license_def commit_def
        db_accepts_def add_timedelta_def timedelta_hours_def
        datetime_max_def Let_def license_for_def)




subsection \<open>Heartbeats\<close>

text \<open>
  A heartbeat in which the collection of the metrics or the request raises returns
  without an exception and leaves the client as it was; so does a heartbeat without a
  cached license.
\<close>

lemma heartbeat_raise_inert:
  assumes "collect \<noteq> None \<or> (\<exists>e. post = PostRaised e) \<or> get_cached_license c = None"
  shows "send_heartbeat now collect post c = (None, c)"
  using assms
  by (auto simp: send_heartbeat_def heartbeat_try_def split: option.splits)

text \<open>
  C7 fails. A heartbeat in which the request raises leaves the client as it was, but a
  heartbeat that the authority answers with the error status 500 writes
  \<open>last_validated_at\<close>: \<open>send_heartbeat\<close> never calls \<open>raise_for_status\<close>, which
  \<open>activate_license\<close> and \<open>validate_license\<close> do call.
\<close>

theorem heartbeat_error_status_writes_record:
  "send_heartbeat 100 None (PostRaised (TransportError ''timeout''))
       (client_with [cached_row 50 True (Some 60) (Some 70)] [])
     = (None, client_with [cached_row 50 True (Some 60) (Some 70)] [])
   \<and> fst (send_heartbeat 100 None (PostReplied 500)
           (client_with [cached_row 50 True (Some 60) (Some 70)] [])) = None
   \<and> map last_validated_at (local_license_cache (committed
        (client_with [cached_row 50 True (Some 60) (Some 70)] []))) = [None]
   \<and> map last_validated_at (local_license_cache (committed
        (snd (send_heartbeat 100 None (PostReplied 500)
           (client_with [cached_row 50 True (Some 60) (Some 70)] []))))) = [Some 100]"
  by (simp add: send_heartbeat_def heartbeat_try_def get_cached_license_def commit_def
        db_accepts_def client_with_def cached_row_def)

subsection \<open>Feature availability\<close>

lemma find_distinct_key:
  "distinct (map feature_key flags) \<Longrightarrow> f \<in> set flags \<Longrightarrow>
     find (\<lambda>g. feature_key g = feature_key f) flags = Some f"
  by (induction flags) (auto simp: image_iff)

lemma find_absent_key:
  "k \<notin> feature_key ` set flags \<Longrightarrow> find (\<lambda>g. feature_key g = k) flags = None"
  by (induction flags) auto

text \<open>
  C8. \<open>is_feature_available\<close> reads the flag table and the configuration only (it takes
  no reply of the authority and returns no new state). For a key with a stored flag it
  is \<open>licensed \<and> system_enabled\<close> of that flag; for a key without one it is true
  exactly when \<open>ALLOW_UNLICENSED_CORE_FEATURES\<close> is set and the key is one of the five
  core features.
\<close>

theorem is_feature_available_local:
  assumes "distinct (map feature_key (local_feature_flags (pending c)))"
  shows "(\<forall>f \<in> set (local_feature_flags (pending c)).
            feature_key f = k \<longrightarrow>
            is_feature_available cfg c k = (licensed f \<and> system_enabled f))
       \<and> (k \<notin> feature_key ` set (local_feature_flags (pending c)) \<longrightarrow>
            is_feature_available cfg c k =
              (ALLOW_UNLICENSED_CORE_FEATURES cfg \<and>
               k \<in> {''module.camera_management'', ''module.live_view'',
                     ''module.recording_basic'', ''module.playback'',
                     ''module.user_management''}))"
proof (intro conjI ballI impI)
  fix f assume "f \<in> set (local_feature_flags (pending c))" "feature_key f = k"
  with find_distinct_key [OF assms, of f]
  show "is_feature_available cfg c k = (licensed f \<and> system_enabled f)"
    by (simp add: is_feature_available_def)
next
  assume "k \<notin> feature_key ` set (local_feature_flags (pending c))"
  from find_absent_key [OF this]
  show "is_feature_available cfg c k =
          (ALLOW_UNLICENSED_CORE_FEATURES cfg \<and>
           k \<in> {''module.camera_management'', ''module.live_view'',
                 ''module.recording_basic'', ''module.playback'',
                 ''module.user_management''})"
    by (simp add: is_feature_available_def is_core_feature_def)
qed

theorem is_feature_available_local_witness:
  "distinct (map feature_key [flag_row ''module.analytics'' True False,
                               flag_row ''module.lpr'' True True])
   \<and> is_feature_available default_settings
        (client_with [] [flag_row ''module.analytics'' True False,
                         flag_row ''module.lpr'' True True]) ''module.lpr'' = True
   \<and> is_feature_available default_settings
        (client_with [] [flag_row ''module.analytics'' True False,
                         flag_row ''module.lpr'' True True]) ''module.analytics'' = False
   \<and> is_feature_available default_settings
        (client_with [] [flag_row ''module.analytics'' True False,
                         flag_row ''module.lpr'' True True]) ''module.live_view'' = True
   \<and> is_feature_available default_settings
        (client_with [] [flag_row ''module.analytics'' True False,
                         flag_row ''module.lpr'' True True]) ''module.reports'' = False"
  using is_feature_available_local
      [of "client_with [] [flag_row ''module.analytics'' True False,
                           flag_row ''module.lpr'' True True]" "''module.lpr''" default_settings]
    is_feature_available_local
      [of "client_with [] [flag_row ''module.analytics'' True False,
                           flag_row ''module.lpr'' True True]" "''module.analytics''"
          default_settings]
    is_feature_available_local
      [of "client_with [] [flag_row ''module.analytics'' True False,
                           flag_row ''module.lpr'' True True]" "''module.live_view''"
          default_settings]
    is_feature_available_local
      [of "client_with [] [flag_row ''module.analytics'' True False,
                           flag_row ''module.lpr'' True True]" "''module.reports''"
          default_settings]
  by (simp add: client_with_def flag_row_def default_settings_def)

subsection \<open>Activation\<close>

lemmas engine_defs =
  activate_license_def activation_except_def store_license_cache_def sync_feature_flags_def
  start_heartbeat_def log_validation_attempt_def commit_def db_accepts_def Let_def
  accepted_def rejected_def license_for_def fresh_client_def empty_tables_def
  client_with_def cached_row_def flag_row_def timedelta_days_def add_timedelta_def
  datetime_max_def

text \<open>
  C1 fails. Two successful activations with different license keys on a new
  installation: the second adds a row instead of overwriting the first, the table holds
  two licenses, and \<open>_get_cached_license\<close> keeps returning the one activated first.
\<close>

theorem reactivation_with_other_key_adds_row:
  "fst (activate_license 10 ''A'' (accepted ''A'' (Present [])) fresh_client)
     = Inr (Activated (license_for ''A'' (Present [])) ''License activated successfully'')
   \<and> fst (activate_license 20 ''B'' (accepted ''B'' (Present []))
            (snd (activate_license 10 ''A'' (accepted ''A'' (Present [])) fresh_client)))
     = Inr (Activated (license_for ''B'' (Present [])) ''License activated successfully'')
   \<and> map license_key (local_license_cache (committed
        (snd (activate_license 20 ''B'' (accepted ''B'' (Present []))
            (snd (activate_license 10 ''A'' (accepted ''A'' (Present [])) fresh_client))))))
     = [''A'', ''B'']
   \<and> map_option license_key (get_cached_license
        (snd (activate_license 20 ''B'' (accepted ''B'' (Present []))
            (snd (activate_license 10 ''A'' (accepted ''A'' (Present [])) fresh_client)))))
     = Some ''A''"
  by (simp add: engine_defs get_cached_license_def)

text \<open>
  C9 fails. A successful activation of the key that is already cached, made while the
  record is in its grace period with the grace expiry passed: the row is overwritten in
  place and \<open>in_grace_period\<close> is still set afterwards, with the old expiry.
\<close>

theorem reactivation_keeps_grace_flag:
  "fst (activate_license 100 ''K'' (accepted ''K'' (Present []))
          (client_with [cached_row 50 True (Some 60) (Some 70)] []))
     = Inr (Activated (license_for ''K'' (Present [])) ''License activated successfully'')
   \<and> map in_grace_period (local_license_cache (committed
        (snd (activate_license 100 ''K'' (accepted ''K'' (Present []))
          (client_with [cached_row 50 True (Some 60) (Some 70)] [])))))
     = [True]
   \<and> map grace_period_expires_at (local_license_cache (committed
        (snd (activate_license 100 ''K'' (accepted ''K'' (Present []))
          (client_with [cached_row 50 True (Some 60) (Some 70)] [])))))
     = [Some 70]"
  by (simp add: engine_defs)

subsection \<open>The attempt log\<close>



lemma activation_except_attempt:
  assumes "ready c" "length key \<le> 255"
  shows "\<exists>m. fst (activation_except now key e c) = Inr (NotActivated (Some m))
           \<and> local_license_validation_attempts (committed (snd (activation_except now key e c))) =
               local_license_validation_attempts (pending c) @
                 [attempt_row c now key ''failed'' (Some m)]"
proof -
  let ?m = "if is_HTTPError e then ''HTTP error during activation: '' @ str_exn e
            else ''Activation failed: '' @ str_exn e"
  have res: "length ''failed'' \<le> 20" by simp
  note l = log_ready(1,4,5) [OF assms res, of now "Some ?m"]
  obtain e' c' where s: "log_validation_attempt now key ''failed'' (Some ?m) c = (e', c')"
    by (cases "log_validation_attempt now key ''failed'' (Some ?m) c")
  have e': "e' = None" using l(1) s by simp
  have "activation_except now key e c = (Inr (NotActivated (Some ?m)), c')"
    using s e' by (simp add: activation_except_def Let_def)
  moreover have "local_license_validation_attempts (committed c') =
                   local_license_validation_attempts (pending c) @
                     [attempt_row c now key ''failed'' (Some ?m)]"
    using l(2,3) s by (simp add: attempt_row_def)
  ultimately show ?thesis by (intro exI [of _ ?m]) simp
qed

text \<open>The paths through \<open>activate_license\<close>.\<close>

lemma activate_cases:
  obtains (rejected) m where "activation_rejected resp"
      "activate_license now key resp c = (Inr (NotActivated m), c)"
    | (raised) e where "\<not> activation_rejected resp"
        "activate_license now key resp c = activation_except now key e c"
    | (store_failed) data d e where "resp = Json data" "a_success data"
        "a_data data = Present d" "fst (store_license_cache now d c) = Some e"
        "activate_license now key resp c =
           activation_except now key e (snd (store_license_cache now d c))"
    | (sync_failed) data d e where "resp = Json data" "a_success data"
        "a_data data = Present d" "fst (store_license_cache now d c) = None"
        "fst (sync_feature_flags now d (snd (store_license_cache now d c))) = Some e"
        "activate_license now key resp c =
           activation_except now key e
             (snd (sync_feature_flags now d (snd (store_license_cache now d c))))"
    | (applied) data d where "resp = Json data" "a_success data"
        "a_data data = Present d" "fst (store_license_cache now d c) = None"
        "fst (sync_feature_flags now d (snd (store_license_cache now d c))) = None"
        "activate_license now key resp c =
           (case log_validation_attempt now key ''success'' None
                   (start_heartbeat
                      (snd (sync_feature_flags now d (snd (store_license_cache now d c))))) of
              (Some e, c3) \<Rightarrow> activation_except now key e c3
            | (None, c3) \<Rightarrow> (Inr (Activated d ''License activated successfully''), c3))"
proof (cases resp)
  case (Raised e)
  then show ?thesis by (intro raised [of e]) (simp_all add: activate_license_def)
next
  case (Json data)
  show ?thesis
  proof (cases "a_success data")
    case False
    show ?thesis
    proof (cases "a_error data")
      case Absent
      then show ?thesis using Json False
        by (intro rejected [of "Some ''Activation failed''"]) (simp_all add: activate_license_def)
    next
      case Malformed
      then show ?thesis using Json False
        by (intro raised [of "AttributeError ''object has no attribute get''"])
           (simp_all add: activate_license_def)
    next
      case (Present m)
      then show ?thesis using Json False
        by (cases m)
           (simp_all add: activate_license_def
              rejected [of "Some ''Activation failed''"] rejected [of None]
              rejected [of "Some _"])
    qed
  next
    case True
    show ?thesis
    proof (cases "a_data data")
      case Absent
      then show ?thesis using Json True
        by (intro raised [of "KeyError ''data''"]) (simp_all add: activate_license_def)
    next
      case Malformed
      then show ?thesis using Json True
        by (intro raised [of "TypeError ''object is not subscriptable''"])
           (simp_all add: activate_license_def)
    next
      case (Present d)
      obtain e1 c1 where st: "store_license_cache now d c = (e1, c1)"
        by (cases "store_license_cache now d c")
      obtain e2 c2 where sy: "sync_feature_flags now d c1 = (e2, c2)"
        by (cases "sync_feature_flags now d c1")
      show ?thesis
      proof (cases e1)
        case (Some e)
        then show ?thesis using Json True Present st
          by (intro store_failed [of data d e]) (simp_all add: activate_license_def)
      next
        case None
        show ?thesis
        proof (cases e2)
          case (Some e)
          then show ?thesis using Json True Present st None sy
            by (intro sync_failed [of data d e]) (simp_all add: activate_license_def)
        next
          case e2: None
          then show ?thesis using Json True Present st None sy
            by (intro applied [of data d]) (simp_all add: activate_license_def)
        qed
      qed
    qed
  qed
qed

lemma start_heartbeat_simps [simp]:
  "pending (start_heartbeat c) = pending c" "committed (start_heartbeat c) = committed c"
  "hardware_id (start_heartbeat c) = hardware_id c"
  "ready (start_heartbeat c) = ready c"
  by (simp_all add: start_heartbeat_def ready_def)

lemma activate_attempt:
  assumes "fresh c" "\<not> activation_rejected resp" "storable resp" "length key \<le> 255"
  shows "\<exists>err. local_license_validation_attempts
                 (committed (snd (activate_license now key resp c))) =
           local_license_validation_attempts (committed c) @
             [attempt_row c now key
                (if activated (fst (activate_license now key resp c))
                 then ''success'' else ''failed'') err]"
proof -
  have pc: "pending c = committed c" using assms(1) by (rule fresh_clean)
  have rdy: "ready c" using assms(1) by (rule fresh_ready)
  have handled: ?thesis
    if "activate_license now key resp c = activation_except now key e c'" "ready c'"
      "hardware_id c' = hardware_id c"
      "local_license_validation_attempts (pending c') =
         local_license_validation_attempts (pending c)"
    for e c'
  proof -
    from activation_except_attempt [OF that(2) assms(4), of now e]
    obtain m where m: "fst (activation_except now key e c') = Inr (NotActivated (Some m))"
      "local_license_validation_attempts (committed (snd (activation_except now key e c'))) =
         local_license_validation_attempts (pending c') @
           [attempt_row c' now key ''failed'' (Some m)]"
      by blast
    show ?thesis
      using m that(1,3,4) by (intro exI [of _ "Some m"]) (simp add: pc attempt_row_def)
  qed
  show ?thesis
  proof (cases rule: activate_cases [of resp now key c])
    case (rejected m)
    with assms(2) show ?thesis by simp
  next
    case (raised e)
    then show ?thesis using rdy by (intro handled [of e c]) simp_all
  next
    case (store_failed data d e)
    have s: "licenseKey d \<noteq> Null" "signature d \<noteq> Null"
      "\<forall>k. licenseKey d = Value k \<longrightarrow> length k \<le> 255"
      using assms(3) store_failed(1,2,3) by auto
    have "snd (store_license_cache now d c) = c"
      using store_fresh(3) [OF assms(1) s] store_failed(4) by simp
    then show ?thesis using store_failed(5) rdy by (intro handled [of e c]) simp_all
  next
    case (sync_failed data d e)
    let ?c1 = "snd (store_license_cache now d c)"
    let ?c2 = "snd (sync_feature_flags now d ?c1)"
    have s: "distinct (enabled_list d)" "list_all (\<lambda>k. length k \<le> 100) (enabled_list d)"
      using assms(3) sync_failed(1,2,3) by simp_all
    note c1 = store_fresh(2) [OF assms(1) sync_failed(4)]
    then have f1: "fresh ?c1" by simp
    have "ready ?c2" using sync_fresh(6) [OF f1 s] by simp
    moreover have "hardware_id ?c2 = hardware_id c"
      using sync_fresh(2) [OF f1, of now d] c1 by simp
    moreover have "local_license_validation_attempts (pending ?c2) =
                     local_license_validation_attempts (pending c)"
      using sync_fresh(3) [OF f1, of now d] c1 by simp
    ultimately show ?thesis using sync_failed(6) by (intro handled [of e ?c2])
  next
    case (applied data d)
    let ?c1 = "snd (store_license_cache now d c)"
    let ?c2 = "snd (sync_feature_flags now d ?c1)"
    let ?h = "start_heartbeat ?c2"
    note c1 = store_fresh(2) [OF assms(1) applied(4)]
    then have f1: "fresh ?c1" by simp
    have f2: "fresh ?c2" using sync_fresh(5) [OF f1 applied(5)] by simp
    have r: "ready ?h" using f2 by (simp add: fresh_ready)
    have res: "length ''success'' \<le> 20" by simp
    note l = log_ready(1,4,5) [OF r assms(4) res, of now None]
    obtain e' c3 where s: "log_validation_attempt now key ''success'' None ?h = (e', c3)"
      by (cases "log_validation_attempt now key ''success'' None ?h")
    have e': "e' = None" using l(1) s by simp
    have a: "activate_license now key resp c =
               (Inr (Activated d ''License activated successfully''), c3)"
      using applied(6) s e' by simp
    have "local_license_validation_attempts (committed c3) =
            local_license_validation_attempts (pending c) @
              [attempt_row c now key ''success'' None]"
      using l(2,3) s sync_fresh(2,3) [OF f1, of now d] c1
      by (simp add: attempt_row_def)
    then show ?thesis using a by (intro exI [of _ None]) (simp add: pc)
  qed
qed

lemma check_grace_attempts:
  assumes "local_license_validation_attempts (pending c) =
           local_license_validation_attempts (committed c)"
  shows "local_license_validation_attempts (committed (snd (check_grace_period cfg now c))) =
           local_license_validation_attempts (committed c)"
proof (cases "local_license_cache (pending c)")
  case Nil
  then show ?thesis by (simp add: check_grace_period_def)
next
  case (Cons r rs)
  let ?c = "c\<lparr>pending := (pending c)\<lparr>local_license_cache :=
              r\<lparr>in_grace_period := True, grace_period_started_at := Some now,
                grace_period_expires_at :=
                  Some (now + timedelta_hours (OFFLINE_GRACE_PERIOD_HOURS cfg))\<rparr> # rs\<rparr>\<rparr>"
  have "local_license_validation_attempts (committed (snd (commit ?c))) =
          local_license_validation_attempts (committed c)"
    using assms by (simp add: commit_def)
  then show ?thesis using Cons
    by (cases "commit ?c")
       (auto simp: check_grace_period_def add_timedelta_def split: option.splits)
qed

lemma validation_except_attempt:
  assumes "ready c" "length key \<le> 255"
  shows "local_license_validation_attempts
           (committed (snd (validation_except cfg now key e c))) =
         local_license_validation_attempts (pending c) @
           [attempt_row c now key (if is_HTTPError e then ''offline'' else ''failed'')
              (Some (str_exn e))]"
proof -
  let ?res = "if is_HTTPError e then ''offline'' else ''failed''"
  let ?c1 = "snd (log_validation_attempt now key ?res (Some (str_exn e)) c)"
  have res: "length ?res \<le> 20" by simp
  note l = log_ready(4,5) [OF assms res, of now "Some (str_exn e)"]
  have "local_license_validation_attempts (committed (snd (check_grace_period cfg now ?c1))) =
          local_license_validation_attempts (committed ?c1)"
    by (rule check_grace_attempts) (simp only: l(2))
  then show ?thesis
    using l by (simp add: validation_except_ready [OF assms] attempt_row_def)
qed

lemma update_fresh:
  assumes "fresh c" "local_license_cache (pending c) = r # rs" "isValid vd = IsTrue"
  shows "update_license_cache now vd c =
           (None,
            c\<lparr>pending := (pending c)\<lparr>local_license_cache :=
                 r\<lparr>last_validated_at := Some now, is_valid := True,
                   in_grace_period := False\<rparr> # rs\<rparr>,
              committed := (pending c)\<lparr>local_license_cache :=
                 r\<lparr>last_validated_at := Some now, is_valid := True,
                   in_grace_period := False\<rparr> # rs\<rparr>\<rparr>)"
proof -
  have "ready c" using assms(1) by (rule fresh_ready)
  then show ?thesis using assms(2,3)
    by (cases c) (simp add: update_license_cache_def commit_def ready_def db_accepts_def)
qed

lemma validate_success:
  assumes "fresh c" "local_license_cache (pending c) = r # rs"
    "v_success data" "v_data data = Present vd" "isValid vd = IsTrue" "v_license vd \<noteq> Missing"
  shows "fst (validate_license cfg now (Json data) c) =
           Inr (no_result\<lparr>valid := True, license := v_license vd, inGracePeriod := Some False\<rparr>)"
    and "local_license_cache (committed (snd (validate_license cfg now (Json data) c))) =
           r\<lparr>last_validated_at := Some now, is_valid := True, in_grace_period := False\<rparr> # rs"
    and "local_license_validation_attempts
           (committed (snd (validate_license cfg now (Json data) c))) =
         local_license_validation_attempts (pending c) @
           [attempt_row c now (license_key r) ''success'' None]"
proof -
  let ?P = "(pending c)\<lparr>local_license_cache :=
                 r\<lparr>last_validated_at := Some now, is_valid := True,
                   in_grace_period := False\<rparr> # rs\<rparr>"
  let ?c1 = "c\<lparr>pending := ?P, committed := ?P\<rparr>"
  have rdy: "ready c" using assms(1) by (rule fresh_ready)
  have key: "length (license_key r) \<le> 255" using rdy assms(2) by (rule ready_head_key)
  have r1: "ready ?c1" using rdy assms(2) by (simp add: ready_def db_accepts_def)
  have res: "length ''success'' \<le> 20" by simp
  note u = update_fresh [OF assms(1,2,5), of now]
  note l = log_ready(1,2,4,5) [OF r1 key res, of now None]
  obtain e' c2 where s: "log_validation_attempt now (license_key r) ''success'' None ?c1 = (e', c2)"
    by (cases "log_validation_attempt now (license_key r) ''success'' None ?c1")
  have e': "e' = None" using l(1) s by simp
  have v: "validate_license cfg now (Json data) c =
             (Inr (no_result\<lparr>valid := True, license := v_license vd,
                              inGracePeriod := Some False\<rparr>), c2)"
    using assms(2,3,4,5,6) u s e'
    by (cases "v_license vd") (simp_all add: validate_license_def get_cached_license_def)
  show "fst (validate_license cfg now (Json data) c) =
           Inr (no_result\<lparr>valid := True, license := v_license vd, inGracePeriod := Some False\<rparr>)"
    by (simp add: v)
  show "local_license_cache (committed (snd (validate_license cfg now (Json data) c))) =
           r\<lparr>last_validated_at := Some now, is_valid := True, in_grace_period := False\<rparr> # rs"
    using l(2,4) s by (simp add: v)
  show "local_license_validation_attempts
           (committed (snd (validate_license cfg now (Json data) c))) =
         local_license_validation_attempts (pending c) @
           [attempt_row c now (license_key r) ''success'' None]"
    using l(3,4) s by (simp add: v attempt_row_def)
qed

lemma validate_attempt:
  assumes "fresh c" "local_license_cache (pending c) = r # rs"
    "\<not> validation_rejected resp" "\<not> valid_without_license resp" "\<not> validity_refused resp"
  shows "\<exists>err. local_license_validation_attempts
                 (committed (snd (validate_license cfg now resp c))) =
           local_license_validation_attempts (committed c) @
             [attempt_row c now (license_key r)
                (if status_error resp then ''offline'' else spec_attempt_result resp) err]"
proof -
  have pc: "pending c = committed c" using assms(1) by (rule fresh_clean)
  have rdy: "ready c" using assms(1) by (rule fresh_ready)
  have key: "length (license_key r) \<le> 255" using rdy assms(2) by (rule ready_head_key)
  have handled: ?thesis
    if "validate_license cfg now resp c = validation_except cfg now (license_key r) e c"
      "(if is_HTTPError e then ''offline'' else ''failed'') =
         (if status_error resp then ''offline'' else spec_attempt_result resp)" for e
    using validation_except_attempt [OF rdy key, of cfg now e] that
    by (intro exI [of _ "Some (str_exn e)"]) (simp add: pc)
  show ?thesis
  proof (cases resp)
    case (Raised e)
    have "validate_license cfg now resp c = validation_except cfg now (license_key r) e c"
      using Raised assms(2) by (simp add: validate_license_def get_cached_license_def)
    moreover have "(if is_HTTPError e then ''offline'' else ''failed'') =
         (if status_error resp then ''offline'' else spec_attempt_result resp)"
      using Raised by (cases e) simp_all
    ultimately show ?thesis by (rule handled)
  next
    case (Json data)
    have ok: "v_success data" using assms(3) Json by (simp split: if_splits)
    show ?thesis
    proof (cases "v_data data")
      case Absent
      then show ?thesis using Json ok assms(2)
        by (intro handled [of "KeyError ''data''"])
           (simp_all add: validate_license_def get_cached_license_def)
    next
      case Malformed
      then show ?thesis using Json ok assms(2)
        by (intro handled [of "AttributeError ''object has no attribute get''"])
           (simp_all add: validate_license_def get_cached_license_def)
    next
      case (Present vd)
      have v: "isValid vd = IsTrue" "v_license vd \<noteq> Missing"
        using assms(3,4,5) Json ok Present by (cases "isValid vd"; simp)+
      from validate_success(3) [OF assms(1,2) ok Present v, of cfg now] show ?thesis
        using Json ok Present v by (intro exI [of _ None]) (simp add: pc)
    qed
  qed
qed

lemma validate_no_license:
  assumes "local_license_cache (pending c) = []"
  shows "validate_license cfg now resp c =
           (Inr (no_result\<lparr>valid := False, reason := Some ''no_license''\<rparr>), c)"
  using assms by (simp add: validate_license_def get_cached_license_def)

text \<open>
  C6 (as amended). On a session that can commit: an activation with a key of at most 255
  characters appends exactly one attempt, \<open>success\<close> when the license was activated and
  \<open>failed\<close> for every exception (transport errors included), unless the authority
  answers it with \<open>success\<close> false or sends a license that cannot be stored (key or
  signature \<open>null\<close>, a key longer than its column, a feature listed twice or with a key
  longer than its column). A validation without a cached license appends none. A
  validation of a cached license appends exactly one attempt, \<open>offline\<close> for a transport
  error and for an HTTP error status, \<open>failed\<close> for every other exception and
  \<open>success\<close> when the license is reported valid, unless the authority answers without
  reporting it valid, reports it valid without a \<open>license\<close> entry, or reports it with an
  \<open>isValid\<close> that is not a Boolean.
\<close>

theorem attempts_appended:
  assumes "fresh c"
  shows "(\<not> activation_rejected resp \<and> storable resp \<and> length key \<le> 255 \<longrightarrow>
            (\<exists>err. attempts (snd (activate_license now key resp c)) =
               attempts c @
                 [attempt_row c now key
                    (if activated (fst (activate_license now key resp c))
                     then ''success'' else ''failed'') err]))
       \<and> (local_license_cache (committed c) = [] \<longrightarrow>
            attempts (snd (validate_license cfg now vresp c)) = attempts c)
       \<and> (\<forall>r rs. local_license_cache (committed c) = r # rs
              \<and> \<not> validation_rejected vresp \<and> \<not> valid_without_license vresp
              \<and> \<not> validity_refused vresp \<longrightarrow>
            (\<exists>err. attempts (snd (validate_license cfg now vresp c)) =
               attempts c @
                 [attempt_row c now (license_key r)
                    (if status_error vresp then ''offline'' else spec_attempt_result vresp)
                    err]))"
proof (intro conjI impI allI)
  assume "\<not> activation_rejected resp \<and> storable resp \<and> length key \<le> 255"
  then have h: "\<not> activation_rejected resp" "storable resp" "length key \<le> 255" by simp_all
  from activate_attempt [OF assms h, of now]
  show "\<exists>err. attempts (snd (activate_license now key resp c)) =
          attempts c @
            [attempt_row c now key
               (if activated (fst (activate_license now key resp c))
                then ''success'' else ''failed'') err]"
    by (simp add: attempts_def)
next
  have pc: "pending c = committed c" using assms by (rule fresh_clean)
  assume "local_license_cache (committed c) = []"
  then have "local_license_cache (pending c) = []" by (simp add: pc)
  from validate_no_license [OF this] show
    "attempts (snd (validate_license cfg now vresp c)) = attempts c"
    by simp
next
  fix r rs
  have pc: "pending c = committed c" using assms by (rule fresh_clean)
  assume h: "local_license_cache (committed c) = r # rs
    \<and> \<not> validation_rejected vresp \<and> \<not> valid_without_license vresp
    \<and> \<not> validity_refused vresp"
  then have p: "local_license_cache (pending c) = r # rs" by (simp add: pc)
  from h have n: "\<not> validation_rejected vresp" "\<not> valid_without_license vresp"
    "\<not> validity_refused vresp" by simp_all
  from validate_attempt [OF assms p n, of cfg now]
  show "\<exists>err. attempts (snd (validate_license cfg now vresp c)) =
          attempts c @ [attempt_row c now (license_key r)
             (if status_error vresp then ''offline'' else spec_attempt_result vresp) err]"
    by (simp add: attempts_def)
qed

theorem attempts_appended_witness:
  "fresh (client_with [cached_row 1000 False None None] [])
   \<and> fresh fresh_client
   \<and> \<not> activation_rejected (Raised (TransportError ''timeout''))
   \<and> storable (Raised (TransportError ''timeout''))
   \<and> length ''K'' \<le> 255
   \<and> \<not> validation_rejected (Raised (TransportError ''timeout''))
   \<and> \<not> valid_without_license (Raised (TransportError ''timeout''))
   \<and> \<not> validity_refused (Raised (TransportError ''timeout''))
   \<and> map result (attempts (snd (activate_license 10 ''K'' (Raised (TransportError ''timeout''))
        (client_with [cached_row 1000 False None None] [])))) = [''failed'']
   \<and> map result (attempts (snd (validate_license default_settings 10
        (Raised (TransportError ''timeout''))
        (client_with [cached_row 1000 False None None] [])))) = [''offline'']
   \<and> attempts (snd (validate_license default_settings 10 (Raised (TransportError ''timeout''))
        fresh_client)) = []"
  using attempts_appended
      [of "client_with [cached_row 1000 False None None] []"
          "Raised (TransportError ''timeout'')"
          "''K''" 10 default_settings "Raised (TransportError ''timeout'')"]
    attempts_appended
      [of fresh_client "Raised (TransportError ''timeout'')" "''K''" 10 default_settings
          "Raised (TransportError ''timeout'')"]
  by (auto simp: fresh_def clean_def ready_def db_accepts_def client_with_def cached_row_def
        fresh_client_def empty_tables_def attempts_def attempt_row_def activate_license_def
        activation_except_def log_validation_attempt_def commit_def Let_def)

text \<open>
  C6 as stated fails: a validation on an installation without a cached license returns
  \<open>no_license\<close> and appends no attempt; an activation that meets a transport error
  records it as \<open>failed\<close>, not \<open>offline\<close>; and a validation that meets an HTTP error
  status, which is no transport error, records it as \<open>offline\<close>.
\<close>

theorem attempt_count_counterexample:
  "fst (validate_license default_settings 10 (Raised (TransportError ''timeout'')) fresh_client)
     = Inr (no_result\<lparr>valid := False, reason := Some ''no_license''\<rparr>)
   \<and> attempts (snd (validate_license default_settings 10 (Raised (TransportError ''timeout''))
        fresh_client)) = attempts fresh_client
   \<and> map result (attempts (snd (activate_license 10 ''K'' (Raised (TransportError ''timeout''))
        fresh_client))) = [''failed'']
   \<and> map result (attempts (snd (validate_license default_settings 10
        (Raised (HTTPStatusError 500 ''Internal Server Error''))
        (client_with [cached_row 1000 False None None] [])))) = [''offline'']"
  by (simp add: validate_license_def validation_except_def check_grace_period_def
        get_cached_license_def fresh_client_def empty_tables_def
        client_with_def cached_row_def db_accepts_def
        attempts_def activate_license_def activation_except_def Let_def
        log_validation_attempt_def commit_def)

text \<open>
  The replies left out above. An activation answered with \<open>success\<close> false and a
  validation answered with \<open>isValid\<close> false return without an entry in the log. An
  activation whose license has the signature \<open>null\<close> fails at the commit of the license
  row, the log entry of the failure meets the session that was not rolled back, and
  \<open>PendingRollbackError\<close> leaves \<open>activate_license\<close> with nothing logged. A validation
  reported valid without a \<open>license\<close> entry is logged twice.
\<close>

lemma rejection_logs_no_attempt:
  "fst (activate_license 10 ''A'' rejected fresh_client)
     = Inr (NotActivated (Some ''Invalid license key''))
   \<and> attempts (snd (activate_license 10 ''A'' rejected fresh_client)) = []
   \<and> map_option valid (returned (fst (validate_license default_settings 10 invalid_reply
        (client_with [cached_row 1000 False None None] [])))) = Some True
   \<and> attempts (snd (validate_license default_settings 10 invalid_reply
        (client_with [cached_row 1000 False None None] []))) = []"
  by (simp add: engine_defs validate_license_def grace_in_try_def get_cached_license_def
        check_grace_period_def no_result_def attempts_def invalid_reply_def)

lemma unstorable_logs_no_attempt:
  "fst (activate_license 10 ''K''
          (Json \<lparr>a_success = True,
                 a_data = Present ((license_for ''K'' (Present []))\<lparr>signature := Null\<rparr>),
                 a_error = Absent\<rparr>) fresh_client)
     = Inl PendingRollbackError
   \<and> attempts (snd (activate_license 10 ''K''
          (Json \<lparr>a_success = True,
                 a_data = Present ((license_for ''K'' (Present []))\<lparr>signature := Null\<rparr>),
                 a_error = Absent\<rparr>) fresh_client)) = []
   \<and> local_license_cache (committed (snd (activate_license 10 ''K''
          (Json \<lparr>a_success = True,
                 a_data = Present ((license_for ''K'' (Present []))\<lparr>signature := Null\<rparr>),
                 a_error = Absent\<rparr>) fresh_client))) = []"
  by (simp add: engine_defs attempts_def)

lemma valid_without_license_logs_twice:
  "map result (attempts (snd (validate_license default_settings 10
        (Json \<lparr>v_success = True,
               v_data = Present \<lparr>isValid = IsTrue, v_license = Missing\<rparr>\<rparr>)
        (client_with [cached_row 1000 False None None] []))))
     = [''success'', ''failed'']"
  by (simp add: validate_license_def validation_except_def check_grace_period_def
        get_cached_license_def update_license_cache_def log_validation_attempt_def commit_def
        db_accepts_def client_with_def cached_row_def attempts_def Let_def)

subsection \<open>Activation as one unit\<close>





subsection \<open>What the operations keep of a stored license\<close>

text \<open>The paths through \<open>validate_license\<close> on a cached license.\<close>

lemma validate_cases:
  assumes "local_license_cache (pending c) = r # rs"
  obtains (failing) "\<not> reports_valid resp"
      "validate_license cfg now resp c = grace_in_try cfg now (license_key r) c"
    | (raised) e where "\<not> reports_valid resp"
        "validate_license cfg now resp c = validation_except cfg now (license_key r) e c"
    | (update_failed) data vd e where "resp = Json data" "v_data data = Present vd"
        "fst (update_license_cache now vd c) = Some e"
        "validate_license cfg now resp c =
           validation_except cfg now (license_key r) e (snd (update_license_cache now vd c))"
    | (log_failed) data vd e where "resp = Json data" "v_data data = Present vd"
        "fst (update_license_cache now vd c) = None"
        "fst (log_validation_attempt now (license_key r) ''success'' None
                (snd (update_license_cache now vd c))) = Some e"
        "validate_license cfg now resp c =
           validation_except cfg now (license_key r) e
             (snd (log_validation_attempt now (license_key r) ''success'' None
                     (snd (update_license_cache now vd c))))"
    | (unlicensed) data vd where "resp = Json data" "v_data data = Present vd"
        "fst (update_license_cache now vd c) = None"
        "fst (log_validation_attempt now (license_key r) ''success'' None
                (snd (update_license_cache now vd c))) = None"
        "validate_license cfg now resp c =
           validation_except cfg now (license_key r) (KeyError ''license'')
             (snd (log_validation_attempt now (license_key r) ''success'' None
                     (snd (update_license_cache now vd c))))"
    | (success) data vd where "resp = Json data" "v_data data = Present vd"
        "isValid vd \<noteq> IsFalsy"
        "fst (update_license_cache now vd c) = None"
        "fst (log_validation_attempt now (license_key r) ''success'' None
                (snd (update_license_cache now vd c))) = None"
        "validate_license cfg now resp c =
           (Inr (no_result\<lparr>valid := True, license := v_license vd,
                            inGracePeriod := Some False\<rparr>),
            snd (log_validation_attempt now (license_key r) ''success'' None
                   (snd (update_license_cache now vd c))))"
proof (cases resp)
  case (Raised e)
  then show ?thesis using assms
    by (intro raised [of e]) (simp_all add: validate_license_def get_cached_license_def)
next
  case (Json data)
  show ?thesis
  proof (cases "v_success data")
    case False
    then show ?thesis using Json assms
      by (intro failing) (simp_all add: validate_license_def get_cached_license_def)
  next
    case True
    show ?thesis
    proof (cases "v_data data")
      case Absent
      then show ?thesis using Json True assms
        by (intro raised [of "KeyError ''data''"])
           (simp_all add: validate_license_def get_cached_license_def)
    next
      case Malformed
      then show ?thesis using Json True assms
        by (intro raised [of "AttributeError ''object has no attribute get''"])
           (simp_all add: validate_license_def get_cached_license_def)
    next
      case (Present vd)
      show ?thesis
      proof (cases "isValid vd = IsFalsy")
        case falsy: True
        then show ?thesis using Json True Present assms
          by (intro failing) (simp_all add: validate_license_def get_cached_license_def)
      next
        case valid: False
        obtain e1 c1 where u: "update_license_cache now vd c = (e1, c1)"
          by (cases "update_license_cache now vd c")
        obtain e2 c2 where l:
          "log_validation_attempt now (license_key r) ''success'' None c1 = (e2, c2)"
          by (cases "log_validation_attempt now (license_key r) ''success'' None c1")
        show ?thesis
        proof (cases e1)
          case (Some e)
          then show ?thesis using Json True Present valid assms u
            by (intro update_failed [of data vd e])
               (simp_all add: validate_license_def get_cached_license_def)
        next
          case None
          show ?thesis
          proof (cases e2)
            case (Some e)
            then show ?thesis using Json True Present valid assms u None l
              by (intro log_failed [of data vd e])
                 (simp_all add: validate_license_def get_cached_license_def)
          next
            case e2: None
            show ?thesis
            proof (cases "v_license vd = Missing")
              case True
              then show ?thesis using Json \<open>v_success data\<close> Present valid assms u None l e2
                by (intro unlicensed [of data vd])
                   (simp_all add: validate_license_def get_cached_license_def)
            next
              case False
              then show ?thesis using Json True Present valid assms u None l e2
                by (intro success [of data vd]; cases "v_license vd")
                   (simp_all add: validate_license_def get_cached_license_def)
            qed
          qed
        qed
      qed
    qed
  qed
qed

subsection \<open>Every operation keeps the records\<close>

lemma both_kept_commit:
  "both_kept rows c \<Longrightarrow> both_kept rows (snd (commit c))"
  by (simp add: commit_def both_kept_def)

lemma both_kept_pending:
  assumes "both_kept rows c" "rows_kept (local_license_cache (pending c)) rows'"
  shows "both_kept rows (c\<lparr>pending := (pending c)\<lparr>local_license_cache := rows'\<rparr>\<rparr>)"
  using assms rows_kept_trans [of rows "local_license_cache (pending c)" rows']
  by (simp add: both_kept_def)

lemma both_kept_log:
  assumes "both_kept rows c"
  shows "both_kept rows (snd (log_validation_attempt now key res err c))"
proof -
  have "both_kept rows
          (c\<lparr>pending := (pending c)\<lparr>local_license_validation_attempts :=
               local_license_validation_attempts (pending c) @
                 [\<lparr>attempt_license_key = key, result = res, error_message = err,
                   attempt_hardware_id = hardware_id c, attempted_at = now\<rparr>]\<rparr>\<rparr>)"
    using assms by (simp add: both_kept_def)
  from both_kept_commit [OF this] show ?thesis
    by (simp add: log_validation_attempt_def Let_def)
qed

lemma both_kept_store:
  assumes "both_kept rows c"
  shows "both_kept rows (snd (store_license_cache now d c))"
  using store_cases [of now d c]
proof
  assume "fst (store_license_cache now d c) \<noteq> None \<and> snd (store_license_cache now d c) = c"
  then show ?thesis using assms by simp
next
  assume "\<exists>rows'. add_timedelta now (timedelta_days 30) = Inr (now + timedelta_days 30)
        \<and> licenseKey d \<noteq> Missing
        \<and> map license_key rows' =
            (case licenseKey d of
               Value k \<Rightarrow>
                 (if k \<in> license_key ` set (local_license_cache (pending c))
                  then map license_key (local_license_cache (pending c))
                  else map license_key (local_license_cache (pending c)) @ [k])
             | _ \<Rightarrow> map license_key (local_license_cache (pending c)) @ [[]])
        \<and> rows_kept (local_license_cache (pending c)) rows'
        \<and> (\<forall>k. licenseKey d = Value k \<longrightarrow>
               (\<exists>r \<in> set rows'. license_key r = k \<and> license_data_col r = d
                  \<and> valid_until r = now + timedelta_days 30))
        \<and> store_license_cache now d c =
            commit (c\<lparr>pending := (pending c)\<lparr>local_license_cache := rows'\<rparr>,
                      refused := (refused c \<or> licenseKey d = Null \<or> signature d = Null)\<rparr>)"
  then obtain rows' where k: "rows_kept (local_license_cache (pending c)) rows'"
    and st: "store_license_cache now d c =
            commit (c\<lparr>pending := (pending c)\<lparr>local_license_cache := rows'\<rparr>,
                      refused := (refused c \<or> licenseKey d = Null \<or> signature d = Null)\<rparr>)"
    by blast
  have "both_kept rows (c\<lparr>pending := (pending c)\<lparr>local_license_cache := rows'\<rparr>,
                      refused := (refused c \<or> licenseKey d = Null \<or> signature d = Null)\<rparr>)"
    using both_kept_pending [OF assms k] by (simp add: both_kept_def)
  then show ?thesis unfolding st by (rule both_kept_commit)
qed

lemma both_kept_sync:
  assumes "both_kept rows c"
  shows "both_kept rows (snd (sync_feature_flags now d c))"
proof (cases "enabledFeatures d = Malformed")
  case True
  then show ?thesis using assms by (simp add: sync_state both_kept_def)
next
  case False
  have "both_kept rows (snd (commit (c\<lparr>pending := (pending c)\<lparr>local_feature_flags :=
          fst (sync_loop now (enabled_list d)
                 (map (\<lambda>f. f\<lparr>licensed := False\<rparr>) (local_feature_flags (pending c))) []) @
          snd (sync_loop now (enabled_list d)
                 (map (\<lambda>f. f\<lparr>licensed := False\<rparr>) (local_feature_flags (pending c))) [])\<rparr>\<rparr>)))"
    using assms by (intro both_kept_commit) (simp add: both_kept_def)
  then show ?thesis using False by (simp add: sync_state)
qed

lemma both_kept_update:
  assumes "both_kept rows c"
  shows "both_kept rows (snd (update_license_cache now vd c))"
proof (cases "local_license_cache (pending c)")
  case Nil
  then show ?thesis using assms by (simp add: update_license_cache_def)
next
  case (Cons r rs)
  let ?r = "r\<lparr>last_validated_at := Some now, is_valid := (isValid vd = IsTrue),
               in_grace_period := False\<rparr>"
  have "rows_kept (local_license_cache (pending c)) (?r # rs)"
    unfolding Cons by (rule rows_kept_head) (simp add: kept_def grace_stamped_def)
  from both_kept_pending [OF assms this]
  have "both_kept rows (c\<lparr>pending := (pending c)\<lparr>local_license_cache := ?r # rs\<rparr>,
                           refused := (refused c \<or> isValid vd = IsTruthy)\<rparr>)"
    by (simp add: both_kept_def)
  from both_kept_commit [OF this] show ?thesis using Cons
    by (simp add: update_license_cache_def)
qed

lemma both_kept_check_grace:
  assumes "both_kept rows c"
  shows "both_kept rows (snd (check_grace_period cfg now c))"
proof (cases "local_license_cache (pending c)")
  case Nil
  then show ?thesis using assms by (simp add: check_grace_period_def)
next
  case (Cons r rs)
  have started: "both_kept rows (snd (commit (c\<lparr>pending := (pending c)\<lparr>local_license_cache :=
          r\<lparr>in_grace_period := True, grace_period_started_at := Some now,
            grace_period_expires_at := Some e\<rparr> # rs\<rparr>\<rparr>)))" for e
  proof (rule both_kept_commit, rule both_kept_pending [OF assms])
    show "rows_kept (local_license_cache (pending c))
            (r\<lparr>in_grace_period := True, grace_period_started_at := Some now,
               grace_period_expires_at := Some e\<rparr> # rs)"
      unfolding Cons by (rule rows_kept_head) (simp add: kept_def grace_stamped_def)
  qed
  show ?thesis
  proof (cases "add_timedelta now (timedelta_hours (OFFLINE_GRACE_PERIOD_HOURS cfg))")
    case (Inl e)
    then show ?thesis using Cons assms
      by (simp add: check_grace_period_def split: option.splits)
  next
    case (Inr e)
    obtain e' c' where cm: "commit (c\<lparr>pending := (pending c)\<lparr>local_license_cache :=
          r\<lparr>in_grace_period := True, grace_period_started_at := Some now,
            grace_period_expires_at := Some e\<rparr> # rs\<rparr>\<rparr>) = (e', c')"
      by (cases "commit (c\<lparr>pending := (pending c)\<lparr>local_license_cache :=
          r\<lparr>in_grace_period := True, grace_period_started_at := Some now,
            grace_period_expires_at := Some e\<rparr> # rs\<rparr>\<rparr>)")
    have "both_kept rows c'" using started [of e] cm by simp
    then show ?thesis using Cons assms Inr cm
      by (cases e') (simp_all add: check_grace_period_def split: option.splits)
  qed
qed

lemma both_kept_validation_except:
  assumes "both_kept rows c"
  shows "both_kept rows (snd (validation_except cfg now key e c))"
proof -
  let ?res = "if is_HTTPError e then ''offline'' else ''failed''"
  obtain e' c' where l: "log_validation_attempt now key ?res (Some (str_exn e)) c = (e', c')"
    by (cases "log_validation_attempt now key ?res (Some (str_exn e)) c")
  have c': "both_kept rows c'"
    using both_kept_log [OF assms, of now key ?res "Some (str_exn e)"] l by simp
  show ?thesis
    using l c' both_kept_check_grace [OF c', of cfg now]
    by (cases e') (simp_all add: validation_except_def)
qed

lemma both_kept_grace_in_try:
  assumes "both_kept rows c"
  shows "both_kept rows (snd (grace_in_try cfg now key c))"
proof -
  obtain x c' where g: "check_grace_period cfg now c = (x, c')"
    by (cases "check_grace_period cfg now c")
  have c': "both_kept rows c'" using both_kept_check_grace [OF assms, of cfg now] g by simp
  show ?thesis
    using g c' both_kept_validation_except [OF c', of cfg now key]
    by (cases x) (simp_all add: grace_in_try_def)
qed

lemma both_kept_activation_except:
  assumes "both_kept rows c"
  shows "both_kept rows (snd (activation_except now key e c))"
proof -
  let ?m = "if is_HTTPError e then ''HTTP error during activation: '' @ str_exn e
            else ''Activation failed: '' @ str_exn e"
  obtain e' c' where l: "log_validation_attempt now key ''failed'' (Some ?m) c = (e', c')"
    by (cases "log_validation_attempt now key ''failed'' (Some ?m) c")
  have "both_kept rows c'"
    using both_kept_log [OF assms, of now key "''failed''" "Some ?m"] l by simp
  then show ?thesis using l
    by (cases e') (simp_all add: activation_except_def Let_def)
qed

lemma both_kept_activate:
  assumes "both_kept rows c"
  shows "both_kept rows (snd (activate_license now key resp c))"
proof (cases rule: activate_cases [of resp now key c])
  case (rejected m)
  then show ?thesis using assms by simp
next
  case (raised e)
  then show ?thesis using both_kept_activation_except [OF assms] by simp
next
  case (store_failed data d e)
  then show ?thesis
    using both_kept_activation_except [OF both_kept_store [OF assms]] by simp
next
  case (sync_failed data d e)
  then show ?thesis
    using both_kept_activation_except [OF both_kept_sync [OF both_kept_store [OF assms]]]
    by simp
next
  case (applied data d)
  let ?h = "start_heartbeat (snd (sync_feature_flags now d (snd (store_license_cache now d c))))"
  have h: "both_kept rows ?h"
    using both_kept_sync [OF both_kept_store [OF assms], of now d now d]
    by (simp add: both_kept_def)
  obtain e' c3 where l: "log_validation_attempt now key ''success'' None ?h = (e', c3)"
    by (cases "log_validation_attempt now key ''success'' None ?h")
  have c3: "both_kept rows c3"
    using both_kept_log [OF h, of now key "''success''" None] l by simp
  show ?thesis
    using applied(6) l c3 both_kept_activation_except [OF c3, of now key]
    by (cases e') simp_all
qed

lemma both_kept_validate:
  assumes "both_kept rows c"
  shows "both_kept rows (snd (validate_license cfg now resp c))"
proof (cases "local_license_cache (pending c)")
  case Nil
  then show ?thesis using assms by (simp add: validate_no_license)
next
  case (Cons r rs)
  note u = both_kept_update [OF assms]
  note l = both_kept_log [OF u]
  from Cons show ?thesis
  proof (cases rule: validate_cases [where resp = resp and cfg = cfg and now = now])
    case failing
    then show ?thesis using both_kept_grace_in_try [OF assms] by simp
  next
    case (raised e)
    then show ?thesis using both_kept_validation_except [OF assms] by simp
  next
    case (update_failed data vd e)
    then show ?thesis using both_kept_validation_except [OF u] by simp
  next
    case (log_failed data vd e)
    then show ?thesis using both_kept_validation_except [OF l] by simp
  next
    case (unlicensed data vd)
    then show ?thesis using both_kept_validation_except [OF l] by simp
  next
    case (success data vd)
    then show ?thesis using l by simp
  qed
qed

lemma both_kept_heartbeat:
  assumes "both_kept rows c"
  shows "both_kept rows (snd (send_heartbeat now collect post c))"
proof (cases "local_license_cache (pending c)")
  case Nil
  then show ?thesis using assms by (simp add: send_heartbeat_def get_cached_license_def)
next
  case (Cons r rs)
  have "rows_kept (local_license_cache (pending c)) (r\<lparr>last_validated_at := Some now\<rparr> # rs)"
    unfolding Cons by (rule rows_kept_head) (simp add: kept_def grace_stamped_def)
  from both_kept_commit [OF both_kept_pending [OF assms this]]
  have t: "both_kept rows (snd (heartbeat_try now collect post c))"
    using Cons assms
    by (cases collect; cases post) (simp_all add: heartbeat_try_def)
  obtain e c' where h: "heartbeat_try now collect post c = (e, c')"
    by (cases "heartbeat_try now collect post c")
  show ?thesis using t h Cons
    by (cases e) (simp_all add: send_heartbeat_def get_cached_license_def)
qed

lemma both_kept_perform:
  "both_kept rows c \<Longrightarrow> both_kept rows (perform cfg now op c)"
  by (cases op) (simp_all add: both_kept_activate both_kept_validate both_kept_heartbeat)

subsection \<open>The success result of a validation\<close>

lemma check_grace_not_success:
  "fst (check_grace_period cfg now c) = Inr v \<Longrightarrow> inGracePeriod v \<noteq> Some False"
  by (auto simp: check_grace_period_def no_result_def
        split: list.splits if_splits sum.splits option.splits prod.splits)

lemma validation_except_not_success:
  "fst (validation_except cfg now key e c) = Inr v \<Longrightarrow> inGracePeriod v \<noteq> Some False"
proof -
  let ?res = "if is_HTTPError e then ''offline'' else ''failed''"
  assume a: "fst (validation_except cfg now key e c) = Inr v"
  obtain e' c' where l: "log_validation_attempt now key ?res (Some (str_exn e)) c = (e', c')"
    by (cases "log_validation_attempt now key ?res (Some (str_exn e)) c")
  show ?thesis
    using a l check_grace_not_success [of cfg now c' v]
    by (cases e') (simp_all add: validation_except_def)
qed

lemma grace_in_try_not_success:
  "fst (grace_in_try cfg now key c) = Inr v \<Longrightarrow> inGracePeriod v \<noteq> Some False"
proof -
  assume a: "fst (grace_in_try cfg now key c) = Inr v"
  obtain x c' where g: "check_grace_period cfg now c = (x, c')"
    by (cases "check_grace_period cfg now c")
  show ?thesis
    using a g check_grace_not_success [of cfg now c v]
      validation_except_not_success [of cfg now key _ c' v]
    by (cases x) (simp_all add: grace_in_try_def)
qed

lemma validate_success_update:
  assumes "clean c" "fst (validate_license cfg now resp c) = Inr v"
    "inGracePeriod v = Some False"
  shows "\<exists>r rs. local_license_cache (committed c) = r # rs
           \<and> local_license_cache (committed (snd (validate_license cfg now resp c))) =
               r\<lparr>last_validated_at := Some now, is_valid := True,
                 in_grace_period := False\<rparr> # rs"
proof (cases "local_license_cache (pending c)")
  case Nil
  then show ?thesis using assms(2,3) by (auto simp: validate_no_license no_result_def)
next
  case (Cons r rs)
  have pc: "committed c = pending c" using assms(1) by (simp add: clean_def)
  from Cons show ?thesis
  proof (cases rule: validate_cases [where resp = resp and cfg = cfg and now = now])
    case failing
    then show ?thesis using assms(2,3) grace_in_try_not_success by simp
  next
    case (raised e)
    then show ?thesis using assms(2,3) validation_except_not_success by simp
  next
    case (update_failed data vd e)
    then show ?thesis using assms(2,3) validation_except_not_success by simp
  next
    case (log_failed data vd e)
    then show ?thesis using assms(2,3) validation_except_not_success by simp
  next
    case (unlicensed data vd)
    then show ?thesis using assms(2,3) validation_except_not_success by simp
  next
    case (success data vd)
    let ?c = "c\<lparr>pending := (pending c)\<lparr>local_license_cache :=
                 r\<lparr>last_validated_at := Some now, is_valid := (isValid vd = IsTrue),
                   in_grace_period := False\<rparr> # rs\<rparr>,
                refused := (refused c \<or> isValid vd = IsTruthy)\<rparr>"
    let ?c1 = "snd (update_license_cache now vd c)"
    let ?c2 = "snd (log_validation_attempt now (license_key r) ''success'' None ?c1)"
    have u: "update_license_cache now vd c = commit ?c"
      using Cons by (simp add: update_license_cache_def)
    have ok: "\<not> needs_rollback ?c" "\<not> refused ?c" "db_accepts (pending ?c)"
      using success(4) by (auto simp: u commit_def split: if_splits)
    have v: "isValid vd = IsTrue" using ok(2) success(3) by (cases "isValid vd") simp_all
    have c1: "local_license_cache (pending ?c1) =
                r\<lparr>last_validated_at := Some now, is_valid := True,
                  in_grace_period := False\<rparr> # rs"
      using ok v by (simp add: u commit_def)
    have "local_license_cache (committed ?c2) = local_license_cache (pending ?c1)"
      using success(5)
      by (auto simp: log_validation_attempt_def Let_def commit_def split: if_splits)
    then show ?thesis using c1 Cons success(6) by (simp add: pc)
  qed
qed

text \<open>
  C10. Once \<open>grace_period_started_at\<close> and \<open>grace_period_expires_at\<close> of a stored
  license are set, no activation, validation or heartbeat, whatever the authority
  replies and whether its commits succeed or not, sets either of them back to null. A
  validation that returns the success result sets \<open>in_grace_period\<close> false,
  \<open>last_validated_at\<close> to \<open>now\<close> and \<open>is_valid\<close> true and changes nothing else of the
  record, so both grace timestamps keep their previous values and a record out of its
  grace period can carry stale ones.
\<close>

theorem grace_timestamps_sticky:
  assumes "clean c" "i < length (local_license_cache (committed c))"
    "grace_stamped (local_license_cache (committed c) ! i)"
  shows "i < length (local_license_cache (committed (perform cfg now op c)))
       \<and> license_key (local_license_cache (committed (perform cfg now op c)) ! i) =
           license_key (local_license_cache (committed c) ! i)
       \<and> grace_stamped (local_license_cache (committed (perform cfg now op c)) ! i)
       \<and> (\<forall>resp. op = Validate resp
              \<and> map_option inGracePeriod (returned (fst (validate_license cfg now resp c))) =
                  Some (Some False) \<longrightarrow>
            (\<exists>r rs. local_license_cache (committed c) = r # rs
               \<and> local_license_cache (committed (perform cfg now op c)) =
                   r\<lparr>last_validated_at := Some now, is_valid := True,
                     in_grace_period := False\<rparr> # rs))"
proof -
  let ?rows = "local_license_cache (committed c)"
  have pc: "pending c = committed c" using assms(1) by (simp add: clean_def)
  have "both_kept ?rows c" by (simp add: both_kept_def pc)
  then have "both_kept ?rows (perform cfg now op c)" by (rule both_kept_perform)
  then have k: "rows_kept ?rows (local_license_cache (committed (perform cfg now op c)))"
    by (simp add: both_kept_def)
  from rows_kept_nth [OF k assms(2)] assms(3)
  have a: "i < length (local_license_cache (committed (perform cfg now op c)))
       \<and> license_key (local_license_cache (committed (perform cfg now op c)) ! i) =
           license_key (local_license_cache (committed c) ! i)
       \<and> grace_stamped (local_license_cache (committed (perform cfg now op c)) ! i)"
    by (simp add: kept_def)
  have b: "\<exists>r rs. local_license_cache (committed c) = r # rs
               \<and> local_license_cache (committed (perform cfg now op c)) =
                   r\<lparr>last_validated_at := Some now, is_valid := True,
                     in_grace_period := False\<rparr> # rs"
    if h: "op = Validate resp
        \<and> map_option inGracePeriod (returned (fst (validate_license cfg now resp c))) =
            Some (Some False)"
    for resp
  proof -
    from h obtain v where v: "fst (validate_license cfg now resp c) = Inr v"
        "inGracePeriod v = Some False"
      by (cases "fst (validate_license cfg now resp c)") auto
    from validate_success_update [OF assms(1) v] h show ?thesis by simp
  qed
  show ?thesis using a b by blast
qed

theorem grace_timestamps_sticky_witness:
  "clean (client_with [cached_row 50 True (Some 60) (Some 70)] [])
   \<and> (0::nat) < length (local_license_cache (committed
         (client_with [cached_row 50 True (Some 60) (Some 70)] [])))
   \<and> grace_stamped (local_license_cache (committed
         (client_with [cached_row 50 True (Some 60) (Some 70)] [])) ! 0)
   \<and> map_option inGracePeriod (returned (fst (validate_license default_settings 100 valid_reply
         (client_with [cached_row 50 True (Some 60) (Some 70)] [])))) = Some (Some False)
   \<and> local_license_cache (committed (perform default_settings 100 (Validate valid_reply)
         (client_with [cached_row 50 True (Some 60) (Some 70)] [])))
       = [(cached_row 50 False (Some 60) (Some 70))\<lparr>last_validated_at := Some 100\<rparr>]
   \<and> grace_stamped (local_license_cache (committed (perform default_settings 100
         (Validate valid_reply)
         (client_with [cached_row 50 True (Some 60) (Some 70)] []))) ! 0)"
  using grace_timestamps_sticky
    [of "client_with [cached_row 50 True (Some 60) (Some 70)] []" 0 default_settings 100
        "Validate valid_reply"]
  by (simp add: clean_def client_with_def cached_row_def grace_stamped_def valid_reply_def
        validate_license_def get_cached_license_def update_license_cache_def no_result_def
        log_validation_attempt_def commit_def db_accepts_def Let_def license_for_def)

end
